theory Spec2Isabelle
  imports Complex_Main
begin

section \<open>FortuneFlip: wheels, segments and the spin (src/App.js)\<close>

text \<open>
  The component \<open>App\<close> keeps its data in React state: \<open>wheels\<close>, \<open>activeWheelId\<close>,
  \<open>selectedSegmentId\<close>, \<open>isSpinning\<close> and the animated value \<open>spinValue\<close>. Every
  event handler is modelled as a function from the rendered state to the state after the
  handler's setter calls. JavaScript numbers are binary64 doubles: every arithmetic
  operation of the spin is the exact operation on reals followed by the rounding
  \<open>round64\<close>. The geometry of the wedges, which says where the renderer draws, is stated
  over exact reals. The two sources of nondeterminism, the identifier
  \<open>`${Date.now()}-${Math.random()}`\<close> and the draws of \<open>Math.random()\<close>, are
  parameters of the functions that use them.
\<close>

subsection \<open>Data model\<close>

record segment =
  segment_id :: string
  label :: string

record wheel =
  wheel_id :: string
  name :: string
  segments :: "segment list"

text \<open>A JavaScript number that is finite, or one of \<open>Infinity\<close>, \<open>-Infinity\<close>, \<open>NaN\<close>.\<close>

datatype num = Fin real | NonFinite

text \<open>
  The animation started by \<open>Animated.timing(spinValue, {toValue: targetRotation, ...})\<close>:
  its target and the \<open>winner\<close> captured by its completion callback
  (\<open>None\<close> is JavaScript's \<open>undefined\<close>).
\<close>

record animation =
  winner :: "segment option"
  toValue :: num

record state =
  wheels :: "wheel list"
  activeWheelId :: "string option"
  selectedSegmentId :: "string option"
  isSpinning :: bool
  spinValue :: num
  pending :: "animation option"

datatype error = TypeError

subsection \<open>Template literals\<close>

definition digit :: "nat \<Rightarrow> char" where
  "digit d = ''0123456789'' ! d"

function showNat :: "nat \<Rightarrow> string" where
  "showNat n = (if n < 10 then [digit n] else showNat (n div 10) @ [digit (n mod 10)])"
  by pat_completeness auto
termination
  by (relation "measure (\<lambda>n. n)") auto

declare showNat.simps [simp del]

subsection \<open>Constructors\<close>

text \<open>
  \<open>createSegment(label = 'Default')\<close>: the first argument here is the generated id, the
  second is the label, \<open>None\<close> when the caller passes none.
\<close>

definition createSegment :: "string \<Rightarrow> string option \<Rightarrow> segment" where
  "createSegment newId lbl =
     \<lparr>segment_id = newId, label = (case lbl of None \<Rightarrow> ''Default'' | Some l \<Rightarrow> l)\<rparr>"

definition createWheel :: "string \<Rightarrow> string \<Rightarrow> string \<Rightarrow> wheel" where
  "createWheel newId newSegId nm =
     \<lparr>wheel_id = newId, name = nm, segments = [createSegment newSegId None]\<rparr>"

definition ensureSegments :: "string \<Rightarrow> segment list \<Rightarrow> segment list" where
  "ensureSegments newId segs =
     (if length segs > 0 then segs else [createSegment newId None])"

subsection \<open>The active wheel\<close>

text \<open>\<open>wheels.find((wheel) => wheel.id === activeWheelId) || wheels[0]\<close>\<close>

definition activeWheel :: "state \<Rightarrow> wheel option" where
  "activeWheel s =
     (case find (\<lambda>wheel. Some (wheel_id wheel) = activeWheelId s) (wheels s) of
        Some wheel \<Rightarrow> Some wheel
      | None \<Rightarrow> (case wheels s of [] \<Rightarrow> None | wheel # _ \<Rightarrow> Some wheel))"

text \<open>
  The effect \<open>if (activeWheel) setActiveWheelId(activeWheel.id)\<close> with the dependency
  \<open>[activeWheel?.id]\<close>: it runs after a render in which that id differs from the one of
  the render before, \<open>prevDep\<close>.
\<close>

definition activeWheelEffect :: "string option \<Rightarrow> state \<Rightarrow> state" where
  "activeWheelEffect prevDep s =
     (if map_option wheel_id (activeWheel s) = prevDep then s
      else (case activeWheel s of
              None \<Rightarrow> s
            | Some wheel \<Rightarrow> s\<lparr>activeWheelId := Some (wheel_id wheel)\<rparr>))"

subsection \<open>Mutators\<close>

text \<open>
  \<open>prev.map((wheel) => wheel.id === wheelId ? {...wheel, ...updater(wheel)} : wheel)\<close>.
  The updater is called once for every wheel that matches, and some updaters generate an
  id; the updater therefore also receives the position of the wheel, so that every call
  can be given an id of its own.
\<close>

definition updateWheel :: "string \<Rightarrow> (nat \<Rightarrow> wheel \<Rightarrow> wheel) \<Rightarrow> wheel list \<Rightarrow> wheel list" where
  "updateWheel wheelId updater prev =
     map (\<lambda>(i, wheel). if wheel_id wheel = wheelId then updater i wheel else wheel)
       (enumerate 0 prev)"

definition addWheel :: "string \<Rightarrow> string \<Rightarrow> state \<Rightarrow> state" where
  "addWheel newId newSegId s =
     (let wheelNumber = length (wheels s) + 1;
          newWheel = createWheel newId newSegId (''Wheel '' @ showNat wheelNumber)
      in s\<lparr>wheels := wheels s @ [newWheel],
            activeWheelId := Some (wheel_id newWheel),
            selectedSegmentId := None\<rparr>)"

text \<open>\<open>nextWheel?.id || null\<close>: the empty string is falsy.\<close>

definition deleteWheel :: "string \<Rightarrow> state \<Rightarrow> state" where
  "deleteWheel wheelId s =
     (if length (wheels s) = 1 then s
      else
        (let s1 = s\<lparr>wheels := filter (\<lambda>wheel. wheel_id wheel \<noteq> wheelId) (wheels s)\<rparr>
         in if activeWheelId s = Some wheelId
            then
              (let nextWheel = find (\<lambda>wheel. wheel_id wheel \<noteq> wheelId) (wheels s)
               in s1\<lparr>activeWheelId :=
                        (case nextWheel of
                           None \<Rightarrow> None
                         | Some wheel \<Rightarrow>
                             if wheel_id wheel = [] then None else Some (wheel_id wheel)),
                      selectedSegmentId := None\<rparr>)
            else s1))"

definition addSegment :: "(nat \<Rightarrow> string) \<Rightarrow> state \<Rightarrow> state" where
  "addSegment gen s =
     (case activeWheel s of
        None \<Rightarrow> s
      | Some active \<Rightarrow>
          s\<lparr>wheels :=
              updateWheel (wheel_id active)
                (\<lambda>i wheel. wheel\<lparr>segments :=
                   segments wheel @
                   [createSegment (gen i)
                      (Some (''Segment '' @ showNat (length (segments wheel) + 1)))]\<rparr>)
                (wheels s)\<rparr>)"

definition updateSegmentLabel :: "string \<Rightarrow> string \<Rightarrow> state \<Rightarrow> state" where
  "updateSegmentLabel segmentId lbl s =
     (case activeWheel s of
        None \<Rightarrow> s
      | Some active \<Rightarrow>
          s\<lparr>wheels :=
              updateWheel (wheel_id active)
                (\<lambda>i wheel. wheel\<lparr>segments :=
                   map (\<lambda>seg. if segment_id seg = segmentId then seg\<lparr>label := lbl\<rparr> else seg)
                     (segments wheel)\<rparr>)
                (wheels s)\<rparr>)"

definition deleteSegment :: "(nat \<Rightarrow> string) \<Rightarrow> string \<Rightarrow> state \<Rightarrow> state" where
  "deleteSegment gen segmentId s =
     (case activeWheel s of
        None \<Rightarrow> s
      | Some active \<Rightarrow>
          (let s1 = s\<lparr>wheels :=
                 updateWheel (wheel_id active)
                   (\<lambda>i wheel. wheel\<lparr>segments :=
                      ensureSegments (gen i)
                        (filter (\<lambda>seg. segment_id seg \<noteq> segmentId) (segments wheel))\<rparr>)
                   (wheels s)\<rparr>
           in if selectedSegmentId s = Some segmentId
              then s1\<lparr>selectedSegmentId := None\<rparr> else s1))"

definition renameWheel :: "string \<Rightarrow> state \<Rightarrow> state" where
  "renameWheel nm s =
     (case activeWheel s of
        None \<Rightarrow> s
      | Some active \<Rightarrow>
          s\<lparr>wheels := updateWheel (wheel_id active) (\<lambda>i wheel. wheel\<lparr>name := nm\<rparr>) (wheels s)\<rparr>)"

text \<open>The chip's \<open>onPress\<close>: \<open>setActiveWheelId(wheel.id); setSelectedSegmentId(null)\<close>.\<close>

definition setActiveWheel :: "string \<Rightarrow> state \<Rightarrow> state" where
  "setActiveWheel wheelId s = s\<lparr>activeWheelId := Some wheelId, selectedSegmentId := None\<rparr>"

subsection \<open>Binary64 arithmetic\<close>

text \<open>
  A JavaScript number is an IEEE 754 binary64 value, and \<open>*\<close>, \<open>/\<close> and \<open>+\<close> return the
  exact result rounded to the nearest double, a tie going to the double whose last bit is
  even. \<open>roundHalfEven\<close> is that rounding to an integer. A double is an integer multiple
  of \<open>2 powi ulpExponent x\<close>: the exponent of \<open>x\<close> less 52 for a normal number, \<open>- 1074\<close>
  below \<open>2 powi (- 1022)\<close>. \<open>round64\<close> is the rounding of a real to a double. The
  overflow to \<open>Infinity\<close>, which takes a magnitude of \<open>2 powi 1024\<close>, is not part of it:
  no value of the spin comes near.
\<close>

definition roundHalfEven :: "real \<Rightarrow> int" where
  "roundHalfEven y =
     (let f = \<lfloor>y\<rfloor>; d = y - of_int f
      in if d < 1/2 then f else if 1/2 < d then f + 1 else if even f then f else f + 1)"

definition ulpExponent :: "real \<Rightarrow> int" where
  "ulpExponent x = max \<lfloor>log 2 \<bar>x\<bar>\<rfloor> (- 1022) - 52"

definition round64 :: "real \<Rightarrow> real" where
  "round64 x = 2 powi ulpExponent x * of_int (roundHalfEven (x / 2 powi ulpExponent x))"

text \<open>The finite doubles: the reals that the rounding leaves as they are, below the overflow.\<close>

definition isDouble :: "real \<Rightarrow> bool" where
  "isDouble x \<longleftrightarrow> round64 x = x \<and> \<bar>x\<bar> < 2 powi 1024"

subsection \<open>The spin\<close>

text \<open>\<open>xs[i]\<close> on a JavaScript array: \<open>undefined\<close> outside \<open>0 .. length - 1\<close>.\<close>

definition at_index :: "'a list \<Rightarrow> int \<Rightarrow> 'a option" where
  "at_index xs i = (if 0 \<le> i \<and> i < int (length xs) then Some (xs ! nat i) else None)"

text \<open>
  \<open>Math.floor(Math.random() * segments.length)\<close>, with \<open>r\<close> the draw. The length of a
  JavaScript array is an integer below \<open>2^32\<close>, which is a double as it stands.
\<close>

definition winningIndex :: "real \<Rightarrow> segment list \<Rightarrow> int" where
  "winningIndex r segs = \<lfloor>round64 (r * real (length segs))\<rfloor>"

definition extraSpins :: real where
  "extraSpins = 4"

text \<open>
  \<open>360 / segments.length\<close>, \<open>Math.random() * anglePerSegment\<close> and
  \<open>extraSpins * 360 + winningIndex * anglePerSegment + randomOffset\<close>, each operation
  rounded, the sum from the left. For an empty list the quotient is \<open>Infinity\<close> and the
  sum is not finite: \<open>targetRotation\<close> reads the first two for a list that is not empty
  only.
\<close>

definition anglePerSegment :: "segment list \<Rightarrow> real" where
  "anglePerSegment segs = round64 (360 / real (length segs))"

definition randomOffset :: "real \<Rightarrow> segment list \<Rightarrow> real" where
  "randomOffset r segs = round64 (r * anglePerSegment segs)"

definition targetRotation :: "real \<Rightarrow> real \<Rightarrow> segment list \<Rightarrow> num" where
  "targetRotation r1 r2 segs =
     (if length segs = 0 then NonFinite
      else Fin (round64
                  (round64
                     (round64 (extraSpins * 360)
                      + round64 (real_of_int (winningIndex r1 segs) * anglePerSegment segs))
                   + randomOffset r2 segs)))"

text \<open>
  \<open>spinWheel\<close>, with \<open>r1\<close> and \<open>r2\<close> the two draws of \<open>Math.random()\<close> in the order
  of the calls. The animation it starts is kept in \<open>pending\<close> until it completes.
\<close>

definition spinWheel :: "real \<Rightarrow> real \<Rightarrow> state \<Rightarrow> state" where
  "spinWheel r1 r2 s =
     (case activeWheel s of
        None \<Rightarrow> s
      | Some active \<Rightarrow>
          if isSpinning s then s
          else
            (let segs = segments active;
                 won = at_index segs (winningIndex r1 segs)
             in s\<lparr>isSpinning := True,
                   selectedSegmentId := None,
                   spinValue := Fin 0,
                   pending := Some \<lparr>winner = won, toValue = targetRotation r1 r2 segs\<rparr>\<rparr>))"

text \<open>
  The completion callback \<open>() => { setIsSpinning(false); setSelectedSegmentId(winner.id) }\<close>.
  Reading \<open>winner.id\<close> of an \<open>undefined\<close> winner throws after the first setter has been
  called; the state reached is kept with the error.
\<close>

definition spinCallback :: "animation \<Rightarrow> state \<Rightarrow> (error \<times> state) + state" where
  "spinCallback a s =
     (let s1 = s\<lparr>isSpinning := False\<rparr>
      in case winner a of
           None \<Rightarrow> Inl (TypeError, s1)
         | Some w \<Rightarrow> Inr (s1\<lparr>selectedSegmentId := Some (segment_id w)\<rparr>))"

text \<open>
  The animation in flight ends: the animated value has reached \<open>toValue\<close> and the callback
  runs. Without an animation in flight nothing happens.
\<close>

definition animationFinished :: "state \<Rightarrow> (error \<times> state) + state" where
  "animationFinished s =
     (case pending s of
        None \<Rightarrow> Inr s
      | Some a \<Rightarrow> spinCallback a (s\<lparr>spinValue := toValue a, pending := None\<rparr>))"

definition stateAfter :: "(error \<times> state) + state \<Rightarrow> state" where
  "stateAfter res = (case res of Inl (e, s) \<Rightarrow> s | Inr s \<Rightarrow> s)"

subsection \<open>Wedge geometry\<close>

text \<open>
  \<open>polarToCartesian\<close> as in the source. The y axis of the canvas points down, so angle 0
  is the top of the wheel, where the pointer sits (\<open>styles.pointer\<close>: \<open>top: -6\<close>,
  \<open>left: '50%'\<close>), and angles grow clockwise.
\<close>

definition polarToCartesian :: "real \<Rightarrow> real \<Rightarrow> real \<Rightarrow> real \<Rightarrow> real \<times> real" where
  "polarToCartesian centerX centerY radius angleInDegrees =
     (let angleInRadians = ((angleInDegrees - 90) * pi) / 180
      in (centerX + radius * cos angleInRadians, centerY + radius * sin angleInRadians))"

text \<open>
  The transform \<open>rotate\<close> of the \<open>Animated.View\<close>. The animated value is interpolated
  from \<open>[0, 360]\<close> to \<open>['0deg', '360deg']\<close> and extended, so the value \<open>theta\<close> turns
  the view by \<open>theta\<close> degrees around the centre of the canvas; React Native turns a view
  clockwise on the screen for a positive angle.
\<close>

definition rotateView :: "real \<Rightarrow> real \<Rightarrow> real \<Rightarrow> real \<times> real \<Rightarrow> real \<times> real" where
  "rotateView centerX centerY theta p =
     (let t = (theta * pi) / 180; dx = fst p - centerX; dy = snd p - centerY
      in (centerX + dx * cos t - dy * sin t, centerY + dx * sin t + dy * cos t))"

text \<open>\<open>WheelCanvas\<close>: wedge \<open>index\<close> of \<open>n\<close> is drawn from \<open>startAngle\<close> to \<open>endAngle\<close>.\<close>

definition startAngle :: "nat \<Rightarrow> nat \<Rightarrow> real" where
  "startAngle n index = (360 / real n) * real index"

definition endAngle :: "nat \<Rightarrow> nat \<Rightarrow> real" where
  "endAngle n index = startAngle n index + 360 / real n"

text \<open>
  The direction on the wheel, in \<open>[0, 360)\<close>, that a rotation of the view by \<open>theta\<close>
  degrees brings under the pointer: the one that \<open>theta\<close> turns into angle 0.
\<close>

definition underPointer :: "real \<Rightarrow> real" where
  "underPointer theta = - theta - 360 * real_of_int \<lfloor>- theta / 360\<rfloor>"

definition wedgeUnderPointer :: "nat \<Rightarrow> real \<Rightarrow> int" where
  "wedgeUnderPointer n theta = \<lfloor>underPointer theta / (360 / real n)\<rfloor>"

definition pointerInWedge :: "nat \<Rightarrow> nat \<Rightarrow> real \<Rightarrow> bool" where
  "pointerInWedge n index theta \<longleftrightarrow>
     startAngle n index \<le> underPointer theta \<and> underPointer theta < endAngle n index"

definition pointerStrictlyInWedge :: "nat \<Rightarrow> nat \<Rightarrow> real \<Rightarrow> bool" where
  "pointerStrictlyInWedge n index theta \<longleftrightarrow>
     startAngle n index < underPointer theta \<and> underPointer theta < endAngle n index"

subsection \<open>Loading the stored snapshot\<close>

text \<open>The values \<open>JSON.parse\<close> returns, and \<open>undefined\<close> for a missing property.\<close>

datatype json =
    JUndefined
  | JNull
  | JBool bool
  | JNum real
  | JStr string
  | JArr "json list"
  | JObj "(string \<times> json) list"

fun truthy :: "json \<Rightarrow> bool" where
  "truthy JUndefined = False"
| "truthy JNull = False"
| "truthy (JBool b) = b"
| "truthy (JNum x) = (x \<noteq> 0)"
| "truthy (JStr cs) = (cs \<noteq> [])"
| "truthy (JArr xs) = True"
| "truthy (JObj kvs) = True"

fun nullish :: "json \<Rightarrow> bool" where
  "nullish JUndefined = True"
| "nullish JNull = True"
| "nullish v = False"

text \<open>
  \<open>v.wheels\<close>, \<open>v.activeWheelId\<close> and \<open>v.id\<close> on a value that is not nullish: only an
  object can have a property of one of these names.
\<close>

fun getProp :: "json \<Rightarrow> string \<Rightarrow> json" where
  "getProp (JObj kvs) k = (case map_of kvs k of Some v \<Rightarrow> v | None \<Rightarrow> JUndefined)"
| "getProp v k = JUndefined"

text \<open>\<open>v[0]\<close> on a value that is not nullish.\<close>

fun first :: "json \<Rightarrow> json" where
  "first (JArr []) = JUndefined"
| "first (JArr (x # xs)) = x"
| "first (JStr []) = JUndefined"
| "first (JStr (c # cs)) = JStr [c]"
| "first (JObj kvs) = getProp (JObj kvs) ''0''"
| "first v = JUndefined"

text \<open>What \<open>AsyncStorage.getItem\<close> does: the promise rejects, or resolves to \<open>null\<close> or a string.\<close>

datatype storage = Rejected | Resolved "string option"

text \<open>
  What \<open>load\<close> hands to the setters: the starter collection, or the two values taken from
  the parsed snapshot, which the source stores as they are.
\<close>

datatype loaded = Starter state | Snapshot json json

definition initialState :: state where
  "initialState =
     \<lparr>wheels = [], activeWheelId = None, selectedSegmentId = None,
      isSpinning = False, spinValue = Fin 0, pending = None\<rparr>"

definition starter :: "string \<Rightarrow> string \<Rightarrow> loaded" where
  "starter newId newSegId =
     (let starterWheel = createWheel newId newSegId ''Wheel 1''
      in Starter (initialState\<lparr>wheels := [starterWheel],
                               activeWheelId := Some (wheel_id starterWheel)\<rparr>))"

text \<open>
  \<open>load\<close>, with \<open>parse\<close> standing for \<open>JSON.parse\<close> (\<open>None\<close> when it throws). The
  \<open>catch\<close> branch is reached when \<open>getItem\<close> rejects, when \<open>JSON.parse\<close> throws and when
  \<open>parsed\<close> is \<open>null\<close>, whose property \<open>wheels\<close> cannot be read.
\<close>

definition load :: "(string \<Rightarrow> json option) \<Rightarrow> string \<Rightarrow> string \<Rightarrow> storage \<Rightarrow> loaded" where
  "load parse newId newSegId st =
     (case st of
        Rejected \<Rightarrow> starter newId newSegId
      | Resolved None \<Rightarrow> starter newId newSegId
      | Resolved (Some raw) \<Rightarrow>
          if raw = [] then starter newId newSegId
          else
            (case parse raw of
               None \<Rightarrow> starter newId newSegId
             | Some parsed \<Rightarrow>
                 if nullish parsed then starter newId newSegId
                 else
                   (let ws = getProp parsed ''wheels'';
                        a = getProp parsed ''activeWheelId'';
                        b = (if nullish ws then JUndefined
                             else if nullish (first ws) then JUndefined
                             else getProp (first ws) ''id'')
                    in Snapshot (if truthy ws then ws else JArr [])
                         (if truthy a then a else if truthy b then b else JNull))))"

subsection \<open>Valid collections\<close>

text \<open>The two bounds on a collection: at least one wheel, and no wheel without a segment.\<close>

definition bounds :: "state \<Rightarrow> bool" where
  "bounds s \<longleftrightarrow>
     length (wheels s) \<ge> 1 \<and> (\<forall>wheel \<in> set (wheels s). length (segments wheel) \<ge> 1)"

text \<open>A valid collection meets the bounds and gives every wheel an id of its own.\<close>

definition valid :: "state \<Rightarrow> bool" where
  "valid s \<longleftrightarrow> bounds s \<and> distinct (map wheel_id (wheels s))"

subsection \<open>The frame of a wheel mutation\<close>

text \<open>
  What a mutation of one wheel leaves alone: the id at every position, and the whole wheel
  at every position whose id is not that of the active wheel.
\<close>

definition othersUnchanged :: "state \<Rightarrow> state \<Rightarrow> bool" where
  "othersUnchanged s s' \<longleftrightarrow>
     map wheel_id (wheels s') = map wheel_id (wheels s) \<and>
     (\<forall>i < length (wheels s).
        Some (wheel_id (wheels s ! i)) \<noteq> map_option wheel_id (activeWheel s) \<longrightarrow>
        wheels s' ! i = wheels s ! i)"

subsection \<open>Example collections\<close>

definition wheelA :: wheel where
  "wheelA = \<lparr>wheel_id = ''a'', name = ''Wheel 1'',
            segments = [\<lparr>segment_id = ''a1'', label = ''Default''\<rparr>,
                        \<lparr>segment_id = ''a2'', label = ''Segment 2''\<rparr>]\<rparr>"

definition wheelB :: wheel where
  "wheelB = \<lparr>wheel_id = ''b'', name = ''Wheel 2'',
            segments = [\<lparr>segment_id = ''b1'', label = ''Default''\<rparr>]\<rparr>"

definition oneWheel :: state where
  "oneWheel = initialState\<lparr>wheels := [wheelA], activeWheelId := Some ''a''\<rparr>"

definition twoWheels :: state where
  "twoWheels = initialState\<lparr>wheels := [wheelA, wheelB], activeWheelId := Some ''b''\<rparr>"

definition twoWheelsSelected :: state where
  "twoWheelsSelected = twoWheels\<lparr>selectedSegmentId := Some ''b1''\<rparr>"

definition firstActive :: state where
  "firstActive = twoWheels\<lparr>activeWheelId := Some ''a'', selectedSegmentId := Some ''a1''\<rparr>"

definition oneWheelSpinning :: state where
  "oneWheelSpinning = spinWheel 0 (1/2) oneWheel"

definition fourSegments :: "segment list" where
  "fourSegments =
     [\<lparr>segment_id = ''s0'', label = ''Default''\<rparr>, \<lparr>segment_id = ''s1'', label = ''Segment 2''\<rparr>,
      \<lparr>segment_id = ''s2'', label = ''Segment 3''\<rparr>, \<lparr>segment_id = ''s3'', label = ''Segment 4''\<rparr>]"

definition fourState :: state where
  "fourState =
     initialState\<lparr>wheels := [\<lparr>wheel_id = ''f'', name = ''Wheel 1'', segments = fourSegments\<rparr>],
                  activeWheelId := Some ''f''\<rparr>"

definition threeSegments :: "segment list" where
  "threeSegments =
     [\<lparr>segment_id = ''t0'', label = ''Default''\<rparr>, \<lparr>segment_id = ''t1'', label = ''Segment 2''\<rparr>,
      \<lparr>segment_id = ''t2'', label = ''Segment 3''\<rparr>]"

definition threeState :: state where
  "threeState =
     initialState\<lparr>wheels := [\<lparr>wheel_id = ''t'', name = ''Wheel 1'', segments = threeSegments\<rparr>],
                  activeWheelId := Some ''t''\<rparr>"

definition manySegments :: "segment list" where
  "manySegments = replicate 42 \<lparr>segment_id = ''m'', label = ''Default''\<rparr>"

text \<open>The largest double below 1.\<close>

definition topDraw :: real where
  "topDraw = 1 - 1 / 2 ^ 53"

section \<open>Theorems\<close>

subsection \<open>Facts about the rounding\<close>

lemma roundHalfEven_cases:
  "roundHalfEven y = \<lfloor>y\<rfloor> \<or> roundHalfEven y = \<lfloor>y\<rfloor> + 1"
  by (simp add: roundHalfEven_def Let_def)

lemma roundHalfEven_upper: "of_int (roundHalfEven y) \<le> y + 1/2"
  unfolding roundHalfEven_def Let_def by (auto; linarith)

lemma roundHalfEven_lower: "y - 1/2 \<le> of_int (roundHalfEven y)"
  unfolding roundHalfEven_def Let_def by (auto; linarith)

lemma roundHalfEven_of_int [simp]: "roundHalfEven (of_int k) = k"
  by (simp add: roundHalfEven_def)

lemma roundHalfEven_zero [simp]: "roundHalfEven 0 = 0"
  by (simp add: roundHalfEven_def)

lemma roundHalfEven_below:
  assumes "of_int k \<le> y" and "y < of_int k + 1/2"
  shows "roundHalfEven y = k"
proof -
  have "\<lfloor>y\<rfloor> = k" using assms by linarith
  with assms show ?thesis by (simp add: roundHalfEven_def)
qed

lemma roundHalfEven_mono:
  assumes "x \<le> y"
  shows "roundHalfEven x \<le> roundHalfEven y"
proof (cases "\<lfloor>x\<rfloor> = \<lfloor>y\<rfloor>")
  case True
  with assms show ?thesis
    by (auto simp: roundHalfEven_def Let_def)
next
  case False
  with assms have "\<lfloor>x\<rfloor> + 1 \<le> \<lfloor>y\<rfloor>"
    using floor_mono [of x y] by linarith
  moreover have "roundHalfEven x \<le> \<lfloor>x\<rfloor> + 1"
    using roundHalfEven_cases [of x] by linarith
  moreover have "\<lfloor>y\<rfloor> \<le> roundHalfEven y"
    using roundHalfEven_cases [of y] by linarith
  ultimately show ?thesis by linarith
qed

lemma powr_powi: "(2::real) powr real_of_int e = 2 powi e"
  by (simp add: powr_real_of_int')

lemma ulpExponent_binade:
  assumes "2 powi e \<le> x" and "x < 2 powi (e + 1)"
  shows "ulpExponent x = max e (- 1022) - 52"
proof -
  have "0 < (2::real) powi e" by simp
  with assms(1) have pos: "0 < x" by linarith
  have a: "2 powr real_of_int e \<le> x"
    using assms(1) by (simp only: powr_powi)
  have "2 powr (real_of_int e + 1) = 2 powr real_of_int (e + 1)" by simp
  also have "\<dots> = 2 powi (e + 1)" by (rule powr_powi)
  finally have b: "x < 2 powr (real_of_int e + 1)"
    using assms(2) by simp
  have "\<lfloor>log 2 x\<rfloor> = e"
    using floor_log_eq_powr_iff [of x 2 e] pos a b by simp
  with pos show ?thesis by (simp add: ulpExponent_def)
qed

lemma binade_exists:
  assumes "0 < (x::real)"
  shows "\<exists>e. 2 powi e \<le> x \<and> x < 2 powi (e + 1)"
proof -
  define e where "e = \<lfloor>log 2 x\<rfloor>"
  have "2 powr real_of_int e \<le> x \<and> x < 2 powr (real_of_int e + 1)"
    using floor_log_eq_powr_iff [of x 2 e] assms by (simp add: e_def)
  moreover have "2 powr (real_of_int e + 1) = 2 powr real_of_int (e + 1)" by simp
  ultimately have "2 powi e \<le> x \<and> x < 2 powi (e + 1)"
    by (simp only: powr_powi)
  then show ?thesis ..
qed

lemma powi_split: "(2::real) powi (a + b) = 2 powi a * 2 powi b"
  by (simp add: power_int_add)

lemma powi_pos: "0 < (2::real) powi e"
  by simp

lemma powi_mono: "a \<le> b \<Longrightarrow> (2::real) powi a \<le> 2 powi b"
  by (rule power_int_increasing) simp_all

lemma powi_less_cancel: "(2::real) powi a < 2 powi b \<Longrightarrow> a < b"
  using powi_mono [of b a] by (cases "a < b") auto

lemma round64_unfold:
  assumes "ulpExponent x = j"
  shows "round64 x = 2 powi j * of_int (roundHalfEven (x / 2 powi j))"
  by (simp add: round64_def assms)

lemma round64_zero [simp]: "round64 0 = 0"
  by (simp add: round64_def)

lemma round64_nonneg:
  assumes "0 \<le> x"
  shows "0 \<le> round64 x"
proof -
  have "0 \<le> x / 2 powi ulpExponent x" using assms by simp
  then have "roundHalfEven 0 \<le> roundHalfEven (x / 2 powi ulpExponent x)"
    by (rule roundHalfEven_mono)
  then have "0 \<le> roundHalfEven (x / 2 powi ulpExponent x)"
    using roundHalfEven_of_int [of 0] by simp
  then show ?thesis by (simp add: round64_def)
qed

lemma two_powi_53: "(2::real) powi 53 = of_int (2 ^ 53)"
  by simp

lemma two_powi_52: "(2::real) powi 52 = of_int (2 ^ 52)"
  by simp

lemma round64_le_top:
  assumes "ulpExponent x = j" and "x \<le> 2 powi (j + 53)"
  shows "round64 x \<le> 2 powi (j + 53)"
proof -
  have "x / 2 powi j \<le> 2 powi (j + 53) / 2 powi j"
    using assms(2) by (rule divide_right_mono) simp
  also have "2 powi (j + 53) / 2 powi j = (2::real) powi 53"
    by (simp only: powi_split) simp
  finally have "x / 2 powi j \<le> of_int (2 ^ 53)"
    by (simp only: two_powi_53)
  then have "roundHalfEven (x / 2 powi j) \<le> roundHalfEven (of_int (2 ^ 53))"
    by (rule roundHalfEven_mono)
  then have "roundHalfEven (x / 2 powi j) \<le> 2 ^ 53"
    by (simp only: roundHalfEven_of_int)
  then have "(of_int (roundHalfEven (x / 2 powi j)) :: real) \<le> of_int (2 ^ 53)"
    by (simp only: of_int_le_iff)
  then have "of_int (roundHalfEven (x / 2 powi j)) \<le> (2::real) powi 53"
    by (simp only: two_powi_53)
  then have "(2::real) powi j * of_int (roundHalfEven (x / 2 powi j)) \<le> 2 powi j * 2 powi 53"
    by (rule mult_left_mono) simp
  then show ?thesis
    by (simp only: round64_unfold [OF assms(1)] powi_split)
qed

lemma round64_ge_bottom:
  assumes "ulpExponent x = j" and "2 powi (j + 52) \<le> x"
  shows "2 powi (j + 52) \<le> round64 x"
proof -
  have "2 powi (j + 52) / 2 powi j \<le> x / 2 powi j"
    using assms(2) by (rule divide_right_mono) simp
  moreover have "2 powi (j + 52) / 2 powi j = (2::real) powi 52"
    by (simp only: powi_split) simp
  ultimately have "of_int (2 ^ 52) \<le> x / 2 powi j"
    by (simp only: two_powi_52)
  then have "roundHalfEven (of_int (2 ^ 52)) \<le> roundHalfEven (x / 2 powi j)"
    by (rule roundHalfEven_mono)
  then have "2 ^ 52 \<le> roundHalfEven (x / 2 powi j)"
    by (simp only: roundHalfEven_of_int)
  then have "(of_int (2 ^ 52) :: real) \<le> of_int (roundHalfEven (x / 2 powi j))"
    by (simp only: of_int_le_iff)
  then have "(2::real) powi 52 \<le> of_int (roundHalfEven (x / 2 powi j))"
    by (simp only: two_powi_52)
  then have "(2::real) powi j * 2 powi 52 \<le> 2 powi j * of_int (roundHalfEven (x / 2 powi j))"
    by (rule mult_left_mono) simp
  then show ?thesis
    by (simp only: round64_unfold [OF assms(1)] powi_split)
qed

lemma ulpExponent_pos_cases:
  assumes "0 < x"
  obtains e where "2 powi e \<le> x" "x < 2 powi (e + 1)" "ulpExponent x = max e (- 1022) - 52"
  using binade_exists [OF assms] ulpExponent_binade by blast

lemma round64_mono:
  assumes "0 \<le> x" and "x \<le> y"
  shows "round64 x \<le> round64 y"
proof (cases "x = 0")
  case True
  with assms show ?thesis by (simp add: round64_nonneg)
next
  case False
  with assms have px: "0 < x" and py: "0 < y" by simp_all
  from px obtain ex where ex: "2 powi ex \<le> x" "x < 2 powi (ex + 1)"
    "ulpExponent x = max ex (- 1022) - 52" by (rule ulpExponent_pos_cases)
  from py obtain ey where ey: "2 powi ey \<le> y" "y < 2 powi (ey + 1)"
    "ulpExponent y = max ey (- 1022) - 52" by (rule ulpExponent_pos_cases)
  from ex(1) assms(2) ey(2) have "(2::real) powi ex < 2 powi (ey + 1)" by linarith
  then have le: "ex \<le> ey" using powi_less_cancel [of ex "ey + 1"] by simp
  define jx where "jx = max ex (- 1022) - 52"
  define jy where "jy = max ey (- 1022) - 52"
  from le have jle: "jx \<le> jy" unfolding jx_def jy_def by linarith
  show ?thesis
  proof (cases "jx = jy")
    case True
    have "x / 2 powi jx \<le> y / 2 powi jx"
      using assms(2) by (simp add: divide_right_mono)
    then have "roundHalfEven (x / 2 powi jx) \<le> roundHalfEven (y / 2 powi jx)"
      by (rule roundHalfEven_mono)
    then have "2 powi jx * of_int (roundHalfEven (x / 2 powi jx))
        \<le> (2::real) powi jx * of_int (roundHalfEven (y / 2 powi jx))"
      by (intro mult_left_mono) simp_all
    then show ?thesis
      using True by (simp only: round64_unfold [OF ex(3)] round64_unfold [OF ey(3)] jx_def jy_def)
  next
    case False
    with jle have lt: "jx + 1 \<le> jy" by simp
    then have eyn: "jy = ey - 52" and eyb: "jx + 53 \<le> ey"
      unfolding jx_def jy_def by linarith+
    have "ex + 1 \<le> jx + 53" unfolding jx_def by linarith
    then have "x \<le> 2 powi (jx + 53)"
      using ex(2) powi_mono [of "ex + 1" "jx + 53"] by linarith
    then have "round64 x \<le> 2 powi (jx + 53)"
      using ex(3) unfolding jx_def [symmetric] by (intro round64_le_top)
    also have "\<dots> \<le> 2 powi ey" using eyb by (rule powi_mono)
    also have "\<dots> \<le> round64 y"
    proof -
      have "ulpExponent y = ey - 52" using ey(3) eyn by (simp only: jy_def)
      moreover have "2 powi (ey - 52 + 52) \<le> y" using ey(1) by simp
      ultimately have "2 powi (ey - 52 + 52) \<le> round64 y" by (rule round64_ge_bottom)
      then show ?thesis by simp
    qed
    finally show ?thesis .
  qed
qed

lemma round64_binade:
  assumes "- 1022 \<le> e" and "2 powi e \<le> x" and "x < 2 powi (e + 1)"
  shows "round64 x = 2 powi (e - 52) * of_int (roundHalfEven (x / 2 powi (e - 52)))"
proof -
  from assms(1) have "max e (- 1022) - 52 = e - 52" by linarith
  with ulpExponent_binade [OF assms(2,3)] have "ulpExponent x = e - 52" by (simp only:)
  then show ?thesis by (rule round64_unfold)
qed

lemma round64_exact:
  assumes "ulpExponent x = j" and "x / 2 powi j = of_int q"
  shows "round64 x = x"
proof -
  have "round64 x = 2 powi j * of_int (roundHalfEven (of_int q))"
    by (simp only: round64_unfold [OF assms(1)] assms(2))
  also have "\<dots> = 2 powi j * (x / 2 powi j)"
    by (simp only: roundHalfEven_of_int assms(2))
  also have "\<dots> = x" by simp
  finally show ?thesis .
qed

lemma round64_representable:
  assumes "0 < m" and "m \<le> 2 ^ 53" and "- 1074 \<le> k"
  shows "round64 (of_int m * 2 powi k) = of_int m * 2 powi k"
proof -
  define x :: real where "x = of_int m * 2 powi k"
  have px: "0 < x" using assms(1) by (simp add: x_def)
  from px obtain e where e: "2 powi e \<le> x" "x < 2 powi (e + 1)"
    "ulpExponent x = max e (- 1022) - 52" by (rule ulpExponent_pos_cases)
  define j where "j = max e (- 1022) - 52"
  have uj: "ulpExponent x = j" by (simp only: e(3) j_def)
  have "\<exists>q::int. x / 2 powi j = of_int q"
  proof (cases "j \<le> k")
    case True
    have "x / 2 powi j = of_int m * ((2::real) powi k / 2 powi j)"
      by (simp add: x_def)
    also have "(2::real) powi k / 2 powi j = 2 powi (k - j)"
      by (simp add: power_int_diff)
    also have "\<dots> = 2 ^ nat (k - j)"
      using True by (simp add: power_int_nonneg_exp)
    finally have "x / 2 powi j = of_int (m * 2 ^ nat (k - j))" by simp
    then show ?thesis ..
  next
    case False
    with assms(3) have je: "j = e - 52" and ke: "k + 53 \<le> e"
      unfolding j_def by linarith+
    have "of_int m \<le> (of_int (2 ^ 53) :: real)"
      using assms(2) by (simp only: of_int_le_iff)
    then have "of_int m \<le> (2::real) powi 53" by (simp only: two_powi_53)
    then have "x \<le> 2 powi 53 * 2 powi k"
      unfolding x_def by (rule mult_right_mono) simp
    also have "\<dots> = 2 powi (k + 53)" by (simp add: powi_split)
    also have "\<dots> \<le> 2 powi e" using ke by (rule powi_mono)
    finally have "x = 2 powi e" using e(1) by linarith
    then have "x / 2 powi j = 2 powi e / 2 powi (e - 52)" by (simp only: je)
    also have "\<dots> = 2 powi 52" by (simp add: power_int_diff)
    also have "\<dots> = of_int (2 ^ 52)" by (rule two_powi_52)
    finally show ?thesis ..
  qed
  then obtain q :: int where "x / 2 powi j = of_int q" ..
  with uj have "round64 x = x" by (rule round64_exact)
  then show ?thesis by (simp only: x_def)
qed

lemma round64_of_int:
  assumes "0 \<le> m" and "m \<le> 2 ^ 53"
  shows "round64 (of_int m) = of_int m"
proof (cases "m = 0")
  case True
  then show ?thesis by simp
next
  case False
  with assms have "0 < m" by simp
  from round64_representable [OF this assms(2), of 0] show ?thesis by simp
qed

lemma round64_of_nat:
  assumes "n \<le> 2 ^ 53"
  shows "round64 (real n) = real n"
proof -
  have "int n \<le> int (2 ^ 53)" using assms by (simp only: of_nat_le_iff)
  then have "int n \<le> 2 ^ 53" by simp
  from round64_of_int [OF _ this] show ?thesis by simp
qed

lemma round64_idem:
  assumes "0 \<le> x"
  shows "round64 (round64 x) = round64 x"
proof (cases "x = 0")
  case True
  then show ?thesis by simp
next
  case False
  with assms have px: "0 < x" by simp
  from px obtain e where e: "2 powi e \<le> x" "x < 2 powi (e + 1)"
    "ulpExponent x = max e (- 1022) - 52" by (rule ulpExponent_pos_cases)
  define j where "j = max e (- 1022) - 52"
  define q where "q = roundHalfEven (x / 2 powi j)"
  have uj: "ulpExponent x = j" by (simp only: e(3) j_def)
  have r: "round64 x = of_int q * 2 powi j"
    by (simp only: round64_unfold [OF uj] q_def mult.commute)
  have jk: "- 1074 \<le> j" unfolding j_def by linarith
  have "e + 1 \<le> j + 53" unfolding j_def by linarith
  then have top: "x \<le> 2 powi (j + 53)"
    using e(2) powi_mono [of "e + 1" "j + 53"] by linarith
  have "x / 2 powi j \<le> 2 powi (j + 53) / 2 powi j"
    using top by (rule divide_right_mono) simp
  also have "2 powi (j + 53) / 2 powi j = (2::real) powi 53"
    by (simp only: powi_split) simp
  finally have "x / 2 powi j \<le> of_int (2 ^ 53)"
    by (simp only: two_powi_53)
  then have "roundHalfEven (x / 2 powi j) \<le> roundHalfEven (of_int (2 ^ 53))"
    by (rule roundHalfEven_mono)
  then have q53: "q \<le> 2 ^ 53"
    by (simp only: roundHalfEven_of_int q_def)
  have "0 \<le> x / 2 powi j" using assms by simp
  then have "roundHalfEven 0 \<le> roundHalfEven (x / 2 powi j)" by (rule roundHalfEven_mono)
  then have q0: "0 \<le> q" by (simp add: q_def)
  show ?thesis
  proof (cases "q = 0")
    case True
    with r show ?thesis by simp
  next
    case False
    with q0 have "0 < q" by simp
    from round64_representable [OF this q53 jk] show ?thesis by (simp only: r)
  qed
qed

lemma round64_upper:
  assumes "ulpExponent x = j"
  shows "round64 x \<le> x + 2 powi j / 2"
proof -
  have "(2::real) powi j * of_int (roundHalfEven (x / 2 powi j)) \<le> 2 powi j * (x / 2 powi j + 1/2)"
    using roundHalfEven_upper [of "x / 2 powi j"] by (intro mult_left_mono) simp_all
  also have "\<dots> = x + 2 powi j / 2" by (simp add: algebra_simps)
  finally show ?thesis by (simp only: round64_unfold [OF assms])
qed

lemma round64_relative:
  assumes "2 powi (- 1022) \<le> x"
  shows "round64 x \<le> x * (1 + 2 powi (- 53))"
proof -
  have "0 < (2::real) powi (- 1022)" by (rule powi_pos)
  with assms have px: "0 < x" by linarith
  from px obtain e where e: "2 powi e \<le> x" "x < 2 powi (e + 1)"
    "ulpExponent x = max e (- 1022) - 52" by (rule ulpExponent_pos_cases)
  from assms e(2) have "(2::real) powi (- 1022) < 2 powi (e + 1)" by linarith
  then have "- 1022 < e + 1" by (rule powi_less_cancel)
  then have "max e (- 1022) - 52 = e - 52" by linarith
  with e(3) have uj: "ulpExponent x = e - 52" by (simp only:)
  have "2 powi (e - 52) / 2 = (2::real) powi e * 2 powi (- 53)"
  proof -
    have "(2::real) powi (e + (- 53) + 1) = 2 powi (e + (- 53)) * 2"
      by (rule power_int_add_1) simp
    moreover have "e + (- 53) + 1 = e - 52" by simp
    ultimately have "(2::real) powi (e - 52) = 2 powi (e + (- 53)) * 2" by (simp only:)
    then have "(2::real) powi (e - 52) / 2 = 2 powi (e + (- 53))" by simp
    then show ?thesis by (simp only: powi_split)
  qed
  also have "\<dots> \<le> x * 2 powi (- 53)"
    using e(1) by (rule mult_right_mono) simp
  finally have "2 powi (e - 52) / 2 \<le> x * 2 powi (- 53)" .
  with round64_upper [OF uj] show ?thesis by (simp add: algebra_simps)
qed

lemma u53: "(2::real) powi (- 53) * 2 ^ 53 = 1" and u53_pos: "0 < (2::real) powi (- 53)"
  by simp_all

lemma double_below_one:
  assumes "round64 r = r" and "0 \<le> r" and "r < 1"
  shows "r \<le> 1 - 2 powi (- 53)"
proof (cases "r < 1/2")
  case True
  have "(2::real) powi (- 53) \<le> 2 powi (- 1)" by (rule powi_mono) simp
  then have "(2::real) powi (- 53) \<le> 1/2" by simp
  with True show ?thesis by linarith
next
  case False
  define u :: real where "u = 2 powi (- 53)"
  define q where "q = roundHalfEven (r / u)"
  have u: "0 < u" "u * 2 ^ 53 = 1" unfolding u_def by simp_all
  from False have lo: "2 powi (- 1) \<le> r" by simp
  from assms(3) have hi: "r < 2 powi (- 1 + 1)" by simp
  have "round64 r = 2 powi (- 1 - 52) * of_int (roundHalfEven (r / 2 powi (- 1 - 52)))"
    using _ lo hi by (rule round64_binade) simp
  then have "round64 r = u * of_int q" by (simp add: u_def q_def)
  with assms(1) have r: "r = u * of_int q" by simp
  with assms(3) u(2) have "u * of_int q < u * 2 ^ 53" by simp
  with u(1) have "(of_int q :: real) < 2 ^ 53" by simp
  then have "(of_int q :: real) < of_int (2 ^ 53)" by simp
  then have "q < 2 ^ 53" by (simp only: of_int_less_iff)
  then have "q \<le> 2 ^ 53 - 1" by simp
  then have "(of_int q :: real) \<le> of_int (2 ^ 53 - 1)" by (simp only: of_int_le_iff)
  then have "(of_int q :: real) \<le> 2 ^ 53 - 1" by simp
  with u(1) have "u * of_int q \<le> u * (2 ^ 53 - 1)" by (intro mult_left_mono) simp_all
  also have "\<dots> = 1 - u" using u(2) by (simp add: algebra_simps)
  finally have "u * of_int q \<le> 1 - u" .
  then have "r \<le> 1 - u" by (simp only: r [symmetric])
  then show ?thesis by (simp only: u_def)
qed

lemma round64_scaled_below:
  assumes "round64 a = a" and "2 powi (- 1021) \<le> a"
    and "round64 r = r" and "0 \<le> r" and "r < 1"
  shows "round64 (r * a) < a"
proof -
  define u :: real where "u = 2 powi (- 53)"
  have u: "0 < u" "u * 2 ^ 53 = 1" unfolding u_def by simp_all
  have "0 < (2::real) powi (- 1021)" by (rule powi_pos)
  with assms(2) have pa: "0 < a" by linarith
  from pa obtain e where e: "2 powi e \<le> a" "a < 2 powi (e + 1)"
    by (rule ulpExponent_pos_cases)
  from assms(2) e(2) have "(2::real) powi (- 1021) < 2 powi (e + 1)" by linarith
  then have "- 1021 < e + 1" by (rule powi_less_cancel)
  then have en: "- 1021 \<le> e" by simp
  then have en': "- 1022 \<le> e" by simp
  define U :: real where "U = 2 powi (e - 52)"
  define M where "M = roundHalfEven (a / U)"
  have U: "0 < U" "U * 2 ^ 52 = 2 powi e" "U * 2 ^ 53 = 2 powi (e + 1)"
  proof -
    show "0 < U" by (simp add: U_def)
    have "U * 2 powi 52 = 2 powi (e - 52 + 52)" unfolding U_def by (simp only: powi_split)
    then show "U * 2 ^ 52 = 2 powi e" by simp
    have "U * 2 powi 53 = 2 powi (e - 52 + 53)" unfolding U_def by (simp only: powi_split)
    moreover have "e - 52 + 53 = e + 1" by simp
    ultimately show "U * 2 ^ 53 = 2 powi (e + 1)" by simp
  qed
  have "round64 a = U * of_int M"
    unfolding U_def M_def using en' e by (rule round64_binade)
  with assms(1) have a: "a = U * of_int M" by simp
  from e(1) have "U * 2 ^ 52 \<le> U * of_int M" by (simp only: U(2) a [symmetric])
  with U(1) have M52r: "(2::real) ^ 52 \<le> of_int M" by simp
  from e(2) have "U * of_int M < U * 2 ^ 53" by (simp only: U(3) a [symmetric])
  with U(1) have M53r: "(of_int M :: real) < 2 ^ 53" by simp
  define y where "y = a * (1 - u)"
  from double_below_one [OF assms(3-5)] have "r \<le> 1 - u" by (simp only: u_def)
  with pa have "r * a \<le> (1 - u) * a" by (intro mult_right_mono) simp_all
  then have "r * a \<le> y" by (simp add: y_def mult.commute)
  moreover from assms(4) pa have "0 \<le> r * a" by simp
  ultimately have step: "round64 (r * a) \<le> round64 y" by (rule round64_mono [rotated])
  have "round64 y < a"
  proof (cases "(of_int M :: real) = 2 ^ 52")
    case True
    then have a2: "a = 2 powi e" by (simp only: a U(2))
    have "(2::real) powi e = 2 powi (e - 53) * 2 ^ 53"
    proof -
      have "(2::real) powi (e - 53) * 2 powi 53 = 2 powi (e - 53 + 53)" by (simp only: powi_split)
      then show ?thesis by simp
    qed
    then have "y = 2 powi (e - 53) * 2 ^ 53 * (1 - u)" by (simp only: y_def a2)
    also have "\<dots> = 2 powi (e - 53) * (2 ^ 53 - u * 2 ^ 53)" by (simp add: algebra_simps)
    also have "\<dots> = of_int (2 ^ 53 - 1) * 2 powi (e - 53)" by (simp only: u(2)) simp
    finally have yr: "y = of_int (2 ^ 53 - 1) * 2 powi (e - 53)" .
    have "round64 (of_int (2 ^ 53 - 1) * 2 powi (e - 53)) = of_int (2 ^ 53 - 1) * 2 powi (e - 53)"
      using en by (intro round64_representable) simp_all
    then have "round64 y = y" by (simp only: yr)
    moreover from pa u(1) have "y < a" by (simp add: y_def algebra_simps)
    ultimately show ?thesis by simp
  next
    case False
    with M52r have "(2::real) ^ 52 < of_int M" by simp
    then have "(of_int (2 ^ 52) :: real) < of_int M" by simp
    then have "2 ^ 52 < M" by (simp only: of_int_less_iff)
    then have "2 ^ 52 \<le> M - 1" by simp
    then have "(of_int (2 ^ 52) :: real) \<le> of_int (M - 1)" by (simp only: of_int_le_iff)
    then have M1: "(2::real) ^ 52 \<le> of_int M - 1" by simp
    define d where "d = of_int M * u"
    have d1: "d < 1"
    proof -
      have "of_int M * u < 2 ^ 53 * u" using M53r u(1) by simp
      then show ?thesis using u(2) by (simp add: d_def mult.commute)
    qed
    have d2: "1/2 < d"
    proof -
      have "2 ^ 52 * u < of_int M * u"
        using \<open>(2::real) ^ 52 < of_int M\<close> u(1) by (intro mult_strict_right_mono)
      moreover have "2 ^ 52 * u = 1/2" using u(2) by simp
      ultimately show ?thesis by (simp only: d_def)
    qed
    have yU: "y = U * (of_int M - d)"
      by (simp add: y_def a d_def algebra_simps)
    have ylo: "2 powi e \<le> y"
    proof -
      have "U * 2 ^ 52 \<le> U * (of_int M - d)"
        using U(1) M1 d1 by (intro mult_left_mono) simp_all
      then show ?thesis by (simp only: U(2) yU)
    qed
    have yhi: "y < 2 powi (e + 1)"
    proof -
      from pa u(1) have "y < a" by (simp add: y_def algebra_simps)
      with e(2) show ?thesis by linarith
    qed
    have "round64 y = U * of_int (roundHalfEven (y / U))"
      unfolding U_def using en' ylo yhi by (rule round64_binade)
    moreover have "y / U = of_int M - d" using U(1) by (simp add: yU)
    moreover have "roundHalfEven (of_int M - d) = M - 1"
      using d1 d2 by (intro roundHalfEven_below) simp_all
    ultimately have "round64 y = U * of_int (M - 1)" by simp
    also have "\<dots> = a - U" by (simp add: a algebra_simps)
    finally show ?thesis using U(1) by simp
  qed
  with step show ?thesis by linarith
qed

text \<open>Values that the rounding leaves as they are, and the evaluation of a rounding.\<close>

lemma round64_numeral:
  assumes "numeral w \<le> (2::int) ^ 53"
  shows "round64 (numeral w) = numeral w"
  using round64_of_int [of "numeral w"] assms by simp

lemma round64_one [simp]: "round64 1 = 1"
  using round64_of_int [of 1] by simp

lemma round64_1440: "round64 1440 = 1440"
  by (simp add: round64_numeral)

lemma round64_dyadic:
  assumes "0 < m" and "m \<le> 2 ^ 53" and "- 1074 \<le> k" and "x = of_int m * 2 powi k"
  shows "round64 x = x"
  using round64_representable [OF assms(1-3)] assms(4) by simp

lemma round64_top: "round64 (1800 + 2 powi (- 42)) = 1800 + 2 powi (- 42)"
  by (rule round64_dyadic [where m = "1800 * 2 ^ 42 + 1" and k = "- 42"]) simp_all

lemma round64_eval:
  assumes "- 1022 \<le> e" and "2 powi e \<le> x" and "x < 2 powi (e + 1)"
    and "roundHalfEven (x / 2 powi (e - 52)) = q"
  shows "round64 x = 2 powi (e - 52) * of_int q"
  using round64_binade [OF assms(1-3)] assms(4) by simp

lemma isDouble_small:
  assumes "round64 x = x" and "\<bar>x\<bar> \<le> 1"
  shows "isDouble x"
proof -
  have "(2::real) powi 0 \<le> 2 powi 1024" by (rule powi_mono) simp
  then have "(1::real) \<le> 2 powi 1024" by simp
  with assms show ?thesis by (simp add: isDouble_def)
qed

lemma zero_draw: "isDouble 0"
  by (rule isDouble_small) simp_all

lemma plain_draws: "isDouble (3/4)" "isDouble (1/2)" "isDouble (1/8)"
proof -
  have "round64 (3/4) = 3/4"
    by (rule round64_dyadic [where m = 3 and k = "- 2"]) simp_all
  then show "isDouble (3/4)" by (rule isDouble_small) simp
  have "round64 (1/2) = 1/2"
    by (rule round64_dyadic [where m = 1 and k = "- 1"]) simp_all
  then show "isDouble (1/2)" by (rule isDouble_small) simp
  have "round64 (1/8) = 1/8"
    by (rule round64_dyadic [where m = 1 and k = "- 3"]) simp_all
  then show "isDouble (1/8)" by (rule isDouble_small) simp
qed

lemma topDraw_double: "isDouble topDraw" and topDraw_range: "0 \<le> topDraw" "topDraw < 1"
proof -
  have "round64 (1 - 1 / 2 ^ 53) = 1 - 1 / 2 ^ 53"
    by (rule round64_dyadic [where m = "2 ^ 53 - 1" and k = "- 53"]) simp_all
  then show "isDouble topDraw"
    unfolding topDraw_def by (rule isDouble_small) simp
  show "0 \<le> topDraw" "topDraw < 1" by (simp_all add: topDraw_def)
qed

subsection \<open>Facts about \<open>updateWheel\<close> and the active wheel\<close>

lemma length_updateWheel: "length (updateWheel wheelId updater prev) = length prev"
  by (simp add: updateWheel_def)

lemma updateWheel_Nil_iff: "updateWheel wheelId updater prev = [] \<longleftrightarrow> prev = []"
  using length_updateWheel [of wheelId updater prev] by (metis length_0_conv)

lemma nth_updateWheel:
  "i < length prev \<Longrightarrow>
   updateWheel wheelId updater prev ! i =
     (if wheel_id (prev ! i) = wheelId then updater i (prev ! i) else prev ! i)"
  by (simp add: updateWheel_def nth_enumerate_eq)

lemma updateWheel_keeps_ids:
  assumes "\<And>i wheel. wheel_id (updater i wheel) = wheel_id wheel"
  shows "map wheel_id (updateWheel wheelId updater prev) = map wheel_id prev"
  by (rule nth_equalityI) (simp_all add: length_updateWheel nth_updateWheel assms)

lemma updateWheel_nonempty_segments:
  assumes "\<forall>wheel \<in> set prev. segments wheel \<noteq> []"
    and "\<And>i wheel. segments wheel \<noteq> [] \<Longrightarrow> segments (updater i wheel) \<noteq> []"
  shows "\<forall>wheel \<in> set (updateWheel wheelId updater prev). segments wheel \<noteq> []"
proof
  fix wheel assume "wheel \<in> set (updateWheel wheelId updater prev)"
  then obtain i where i: "i < length prev" and w: "wheel = updateWheel wheelId updater prev ! i"
    by (auto simp: in_set_conv_nth length_updateWheel)
  from i have "prev ! i \<in> set prev" by simp
  with assms(1) have "segments (prev ! i) \<noteq> []" by blast
  with i w assms(2) show "segments wheel \<noteq> []"
    by (simp add: nth_updateWheel)
qed

text \<open>With distinct ids, \<open>updateWheel\<close> rewrites one position only.\<close>

lemma updateWheel_distinct:
  assumes "distinct (map wheel_id prev)" and "i < length prev"
  shows "updateWheel (wheel_id (prev ! i)) updater prev = prev[i := updater i (prev ! i)]"
proof (rule nth_equalityI)
  show "length (updateWheel (wheel_id (prev ! i)) updater prev) = length (prev[i := updater i (prev ! i)])"
    by (simp add: length_updateWheel)
next
  fix j assume "j < length (updateWheel (wheel_id (prev ! i)) updater prev)"
  then have j: "j < length prev" by (simp add: length_updateWheel)
  have "wheel_id (prev ! j) = wheel_id (prev ! i) \<longleftrightarrow> j = i"
    using assms j nth_eq_iff_index_eq [of "map wheel_id prev" j i] by simp
  with j show "updateWheel (wheel_id (prev ! i)) updater prev ! j = prev[i := updater i (prev ! i)] ! j"
    by (simp add: nth_updateWheel nth_list_update)
qed

lemma ensureSegments_nonempty: "ensureSegments newId segs \<noteq> []"
  by (simp add: ensureSegments_def)

lemma activeWheel_Some:
  "wheels s \<noteq> [] \<Longrightarrow> \<exists>wheel. activeWheel s = Some wheel \<and> wheel \<in> set (wheels s)"
proof (cases "find (\<lambda>wheel. Some (wheel_id wheel) = activeWheelId s) (wheels s)")
  case None
  assume "wheels s \<noteq> []"
  with None show ?thesis
    by (cases "wheels s") (simp_all add: activeWheel_def)
next
  case (Some wheel)
  then have "wheel \<in> set (wheels s)"
    by (auto simp: find_Some_iff)
  with Some show ?thesis by (simp add: activeWheel_def)
qed

lemma activeWheel_position:
  "wheels s \<noteq> [] \<Longrightarrow> \<exists>i < length (wheels s). activeWheel s = Some (wheels s ! i)"
  using activeWheel_Some [of s] by (auto simp: in_set_conv_nth)

lemma activeWheel_first:
  assumes "wheels s \<noteq> []"
    and "activeWheelId s = None \<or> activeWheelId s = Some (wheel_id (hd (wheels s)))"
  shows "activeWheel s = Some (hd (wheels s))"
proof (cases "wheels s")
  case Nil
  with assms(1) show ?thesis by simp
next
  case (Cons x xs)
  from assms(2) show ?thesis
  proof
    assume "activeWheelId s = None"
    then have "find (\<lambda>wheel. Some (wheel_id wheel) = activeWheelId s) (wheels s) = None"
      by (simp add: find_None_iff)
    with Cons show ?thesis by (simp add: activeWheel_def)
  next
    assume "activeWheelId s = Some (wheel_id (hd (wheels s)))"
    with Cons show ?thesis by (simp add: activeWheel_def)
  qed
qed

lemma find_map_cong:
  "map f xs = map f ys \<Longrightarrow>
   map_option f (find (\<lambda>x. P (f x)) xs) = map_option f (find (\<lambda>x. P (f x)) ys)"
proof (induction xs arbitrary: ys)
  case Nil
  then show ?case by simp
next
  case (Cons x xs)
  then obtain y ys' where "ys = y # ys'" "f x = f y" "map f xs = map f ys'"
    by (cases ys) auto
  with Cons.IH [of ys'] show ?case by simp
qed

lemma activeWheel_id_cong:
  assumes "map wheel_id (wheels s') = map wheel_id (wheels s)"
    and "activeWheelId s' = activeWheelId s"
  shows "map_option wheel_id (activeWheel s') = map_option wheel_id (activeWheel s)"
proof -
  let ?P = "\<lambda>i. Some i = activeWheelId s"
  have f: "map_option wheel_id (find (\<lambda>wheel. ?P (wheel_id wheel)) (wheels s'))
      = map_option wheel_id (find (\<lambda>wheel. ?P (wheel_id wheel)) (wheels s))"
    using assms(1) by (rule find_map_cong)
  have h: "map_option wheel_id (case wheels s' of [] \<Rightarrow> None | wheel # _ \<Rightarrow> Some wheel)
      = map_option wheel_id (case wheels s of [] \<Rightarrow> None | wheel # _ \<Rightarrow> Some wheel)"
    using assms(1) by (cases "wheels s"; cases "wheels s'") auto
  show ?thesis
  proof (cases "find (\<lambda>wheel. ?P (wheel_id wheel)) (wheels s)")
    case None
    with f have "find (\<lambda>wheel. ?P (wheel_id wheel)) (wheels s') = None" by simp
    with None h show ?thesis by (simp add: activeWheel_def assms(2))
  next
    case (Some a)
    with f obtain a' where "find (\<lambda>wheel. ?P (wheel_id wheel)) (wheels s') = Some a'"
      and "wheel_id a' = wheel_id a" by auto
    with Some show ?thesis by (simp add: activeWheel_def assms(2))
  qed
qed

lemma find_filter_hd:
  "filter P xs \<noteq> [] \<Longrightarrow> find P xs = Some (hd (filter P xs))"
  by (induction xs) auto

lemma filter_other_ids_nonempty:
  assumes "distinct (map wheel_id ws)" and "length ws \<ge> 2"
  shows "filter (\<lambda>wheel. wheel_id wheel \<noteq> wheelId) ws \<noteq> []"
proof -
  obtain x y zs where ws: "ws = x # y # zs"
    using assms(2) by (cases ws; cases "tl ws") auto
  with assms(1) have "wheel_id x \<noteq> wheel_id y" by simp
  then have "wheel_id x \<noteq> wheelId \<or> wheel_id y \<noteq> wheelId" by auto
  with ws show ?thesis by auto
qed

lemma filter_other_id_remove1:
  "distinct (map wheel_id ws) \<Longrightarrow> w \<in> set ws \<Longrightarrow>
   filter (\<lambda>wheel. wheel_id wheel \<noteq> wheel_id w) ws = remove1 w ws"
proof (induction ws)
  case Nil
  then show ?case by simp
next
  case (Cons x xs)
  show ?case
  proof (cases "x = w")
    case True
    with Cons.prems have "wheel_id w \<notin> wheel_id ` set xs" by simp
    then have "\<forall>y \<in> set xs. wheel_id y \<noteq> wheel_id w" by (metis imageI)
    then have "filter (\<lambda>wheel. wheel_id wheel \<noteq> wheel_id w) xs = xs"
      by (simp add: filter_id_conv)
    with True show ?thesis by simp
  next
    case False
    with Cons.prems have "w \<in> set xs" and "wheel_id x \<noteq> wheel_id w" by auto
    with Cons False show ?thesis by simp
  qed
qed

subsection \<open>Every mutator keeps the bounds\<close>

lemma bounds_alt:
  "bounds s \<longleftrightarrow> wheels s \<noteq> [] \<and> (\<forall>wheel \<in> set (wheels s). segments wheel \<noteq> [])"
  by (auto simp: bounds_def Suc_le_eq)

lemma bounds_addWheel: "bounds s \<Longrightarrow> bounds (addWheel newId newSegId s)"
  by (auto simp: bounds_alt addWheel_def createWheel_def Let_def)

lemma bounds_deleteWheel: "valid s \<Longrightarrow> bounds (deleteWheel wheelId s)"
proof -
  assume v: "valid s"
  show ?thesis
  proof (cases "length (wheels s) = 1")
    case True
    with v show ?thesis by (simp add: deleteWheel_def valid_def)
  next
    case False
    with v have "length (wheels s) \<ge> 2" by (auto simp: valid_def bounds_def)
    with v have "filter (\<lambda>wheel. wheel_id wheel \<noteq> wheelId) (wheels s) \<noteq> []"
      by (simp add: filter_other_ids_nonempty valid_def)
    with v False show ?thesis
      by (auto simp: deleteWheel_def valid_def bounds_alt Let_def)
  qed
qed

lemma bounds_updateWheel:
  assumes "bounds s"
    and "\<And>i wheel. segments wheel \<noteq> [] \<Longrightarrow> segments (updater i wheel) \<noteq> []"
    and "wheels s' = updateWheel wheelId updater (wheels s)"
  shows "bounds s'"
proof -
  from assms(1) have "\<forall>wheel \<in> set (updateWheel wheelId updater (wheels s)). segments wheel \<noteq> []"
    by (intro updateWheel_nonempty_segments) (simp_all add: bounds_alt assms(2))
  moreover from assms(1) have "updateWheel wheelId updater (wheels s) \<noteq> []"
    by (simp add: bounds_alt updateWheel_Nil_iff)
  ultimately show ?thesis
    by (simp add: bounds_alt assms(3))
qed

lemma bounds_updateWheel_state:
  assumes "bounds s"
    and "\<And>i wheel. segments wheel \<noteq> [] \<Longrightarrow> segments (updater i wheel) \<noteq> []"
  shows "bounds (s\<lparr>wheels := updateWheel wheelId updater (wheels s)\<rparr>)"
  using bounds_updateWheel [OF assms(1), of updater "s\<lparr>wheels := updateWheel wheelId updater (wheels s)\<rparr>" wheelId]
    assms(2) by simp

lemma bounds_selectedSegmentId_update:
  "bounds (s\<lparr>selectedSegmentId := x\<rparr>) = bounds s"
  by (simp add: bounds_def)

lemma bounds_renameWheel: "bounds s \<Longrightarrow> bounds (renameWheel nm s)"
proof -
  assume b: "bounds s"
  show ?thesis
  proof (cases "activeWheel s")
    case None
    with b show ?thesis by (simp add: renameWheel_def)
  next
    case (Some active)
    from b have "\<forall>wheel \<in> set (updateWheel (wheel_id active) (\<lambda>i wheel. wheel\<lparr>name := nm\<rparr>) (wheels s)).
        segments wheel \<noteq> []"
      by (intro updateWheel_nonempty_segments) (simp_all add: bounds_alt)
    moreover from b have "updateWheel (wheel_id active) (\<lambda>i wheel. wheel\<lparr>name := nm\<rparr>) (wheels s) \<noteq> []"
      by (simp add: bounds_alt updateWheel_Nil_iff)
    ultimately show ?thesis
      using Some by (simp add: renameWheel_def bounds_alt)
  qed
qed

lemma bounds_addSegment: "bounds s \<Longrightarrow> bounds (addSegment gen s)"
proof (cases "activeWheel s")
  case None
  assume "bounds s"
  with None show ?thesis by (simp add: addSegment_def)
next
  case (Some active)
  assume "bounds s"
  then show ?thesis
    unfolding addSegment_def Some option.case
    by (rule bounds_updateWheel_state) simp
qed

lemma bounds_updateSegmentLabel: "bounds s \<Longrightarrow> bounds (updateSegmentLabel segmentId lbl s)"
proof (cases "activeWheel s")
  case None
  assume "bounds s"
  with None show ?thesis by (simp add: updateSegmentLabel_def)
next
  case (Some active)
  assume "bounds s"
  then show ?thesis
    unfolding updateSegmentLabel_def Some option.case
    by (rule bounds_updateWheel_state) simp
qed

lemma bounds_deleteSegment: "bounds s \<Longrightarrow> bounds (deleteSegment gen segmentId s)"
proof (cases "activeWheel s")
  case None
  assume "bounds s"
  with None show ?thesis by (simp add: deleteSegment_def)
next
  case (Some active)
  assume "bounds s"
  then have "bounds (s\<lparr>wheels := updateWheel (wheel_id active)
      (\<lambda>i wheel. wheel\<lparr>segments := ensureSegments (gen i)
         (filter (\<lambda>seg. segment_id seg \<noteq> segmentId) (segments wheel))\<rparr>) (wheels s)\<rparr>)"
    by (rule bounds_updateWheel_state) (simp add: ensureSegments_nonempty)
  then show ?thesis
    by (simp add: deleteSegment_def Some Let_def bounds_selectedSegmentId_update)
qed

lemma bounds_setActiveWheel: "bounds s \<Longrightarrow> bounds (setActiveWheel wheelId s)"
  by (simp add: bounds_def setActiveWheel_def)

lemma wheels_spinWheel: "wheels (spinWheel r1 r2 s) = wheels s"
  by (simp add: spinWheel_def Let_def split: option.splits)

lemma wheels_animationFinished: "wheels (stateAfter (animationFinished s)) = wheels s"
  by (simp add: animationFinished_def spinCallback_def stateAfter_def Let_def split: option.splits)

lemma wheels_activeWheelEffect: "wheels (activeWheelEffect prevDep s) = wheels s"
  by (simp add: activeWheelEffect_def split: option.splits)

text \<open>
  Validity itself is kept by every mutator, provided that the id generated for a new wheel
  is not the id of a wheel of the collection.
\<close>

lemma valid_addWheel:
  "valid s \<Longrightarrow> newId \<notin> wheel_id ` set (wheels s) \<Longrightarrow> valid (addWheel newId newSegId s)"
  using bounds_addWheel [of s newId newSegId]
  by (simp add: valid_def) (simp add: addWheel_def createWheel_def Let_def)

lemma valid_deleteWheel: "valid s \<Longrightarrow> valid (deleteWheel wheelId s)"
  using bounds_deleteWheel [of s wheelId]
  by (simp add: valid_def) (simp add: deleteWheel_def Let_def distinct_map_filter)

lemma valid_updateWheel:
  assumes "valid s"
    and "\<And>i wheel. segments wheel \<noteq> [] \<Longrightarrow> segments (updater i wheel) \<noteq> []"
    and "\<And>i wheel. wheel_id (updater i wheel) = wheel_id wheel"
  shows "valid (s\<lparr>wheels := updateWheel wheelId updater (wheels s)\<rparr>)"
  using assms bounds_updateWheel_state [of s updater wheelId]
  by (simp add: valid_def updateWheel_keeps_ids)

lemma valid_selectedSegmentId_update:
  "valid (s\<lparr>selectedSegmentId := x\<rparr>) = valid s"
  by (simp add: valid_def bounds_def)

lemma valid_renameWheel: "valid s \<Longrightarrow> valid (renameWheel nm s)"
  by (cases "activeWheel s") (simp_all add: renameWheel_def valid_updateWheel)

lemma valid_addSegment: "valid s \<Longrightarrow> valid (addSegment gen s)"
  by (cases "activeWheel s") (simp_all add: addSegment_def valid_updateWheel)

lemma valid_updateSegmentLabel: "valid s \<Longrightarrow> valid (updateSegmentLabel segmentId lbl s)"
  by (cases "activeWheel s") (simp_all add: updateSegmentLabel_def valid_updateWheel)

lemma valid_deleteSegment: "valid s \<Longrightarrow> valid (deleteSegment gen segmentId s)"
  by (cases "activeWheel s")
    (simp_all add: deleteSegment_def Let_def valid_selectedSegmentId_update
      valid_updateWheel ensureSegments_nonempty)

lemma valid_wheels_cong: "wheels s' = wheels s \<Longrightarrow> valid s' = valid s"
  by (simp add: valid_def bounds_def)

lemma valid_others:
  "valid s \<Longrightarrow> valid (setActiveWheel wheelId s) \<and> valid (spinWheel r1 r2 s)
     \<and> valid (stateAfter (animationFinished s)) \<and> valid (activeWheelEffect prevDep s)"
  by (simp add: valid_wheels_cong [OF wheels_spinWheel] valid_wheels_cong [OF wheels_animationFinished]
      valid_wheels_cong [OF wheels_activeWheelEffect])
    (simp add: valid_def bounds_def setActiveWheel_def)

subsection \<open>The example collections\<close>

lemma valid_oneWheel: "valid oneWheel"
  by (simp add: valid_def bounds_def oneWheel_def initialState_def wheelA_def)

lemma valid_twoWheels: "valid twoWheels"
  by (simp add: valid_def bounds_def twoWheels_def initialState_def wheelA_def wheelB_def)

lemma valid_twoWheelsSelected: "valid twoWheelsSelected"
  using valid_twoWheels
  by (simp add: twoWheelsSelected_def valid_selectedSegmentId_update)

lemma valid_firstActive: "valid firstActive"
  by (simp add: valid_def bounds_def firstActive_def twoWheels_def initialState_def
      wheelA_def wheelB_def)

lemma activeWheel_oneWheel: "activeWheel oneWheel = Some wheelA"
  by (simp add: activeWheel_def oneWheel_def initialState_def wheelA_def)

lemma activeWheel_twoWheels: "activeWheel twoWheels = Some wheelB"
  by (simp add: activeWheel_def twoWheels_def initialState_def wheelA_def wheelB_def)

lemma activeWheel_twoWheelsSelected: "activeWheel twoWheelsSelected = Some wheelB"
  by (simp add: activeWheel_def twoWheelsSelected_def twoWheels_def initialState_def
      wheelA_def wheelB_def)

lemma activeWheel_firstActive: "activeWheel firstActive = Some wheelA"
  by (simp add: activeWheel_def firstActive_def twoWheels_def initialState_def
      wheelA_def wheelB_def)

lemma spin_oneWheel_values:
  "winningIndex 0 (segments wheelA) = 0"
  "targetRotation 0 (1/2) (segments wheelA) = Fin 1530"
proof -
  have len: "length (segments wheelA) = 2" by (simp add: wheelA_def)
  show i: "winningIndex 0 (segments wheelA) = 0"
    by (simp add: winningIndex_def)
  have a: "anglePerSegment (segments wheelA) = 180"
    by (simp add: anglePerSegment_def len round64_numeral)
  have o: "randomOffset (1/2) (segments wheelA) = 90"
    by (simp add: randomOffset_def a round64_numeral)
  show "targetRotation 0 (1/2) (segments wheelA) = Fin 1530"
    by (simp add: targetRotation_def len i a o extraSpins_def round64_numeral)
qed

lemma oneWheelSpinning_eq:
  "oneWheelSpinning =
     oneWheel\<lparr>isSpinning := True,
       pending := Some \<lparr>winner = Some \<lparr>segment_id = ''a1'', label = ''Default''\<rparr>,
                        toValue = Fin 1530\<rparr>\<rparr>"
  by (simp add: oneWheelSpinning_def spinWheel_def activeWheel_oneWheel Let_def spin_oneWheel_values)
    (simp add: oneWheel_def initialState_def wheelA_def at_index_def)

subsection \<open>The bounds on a collection\<close>

text \<open>
  C1. In every valid collection state there is at least one wheel and every wheel has at
  least one segment, and the state that each mutator yields from a valid state meets both
  bounds again: \<open>addWheel\<close>, \<open>deleteWheel\<close>, \<open>renameWheel\<close>, \<open>addSegment\<close>,
  \<open>updateSegmentLabel\<close>, \<open>deleteSegment\<close>, switching the active wheel, \<open>spinWheel\<close>
  and the completion of the spin, which records the winner.
\<close>

theorem mutators_keep_bounds:
  assumes "valid s"
  shows "(length (wheels s) \<ge> 1 \<and> (\<forall>wheel \<in> set (wheels s). length (segments wheel) \<ge> 1))
    \<and> bounds (addWheel newId newSegId s)
    \<and> bounds (deleteWheel wheelId s)
    \<and> bounds (renameWheel nm s)
    \<and> bounds (addSegment gen s)
    \<and> bounds (updateSegmentLabel segmentId lbl s)
    \<and> bounds (deleteSegment gen segmentId s)
    \<and> bounds (setActiveWheel wheelId s)
    \<and> bounds (spinWheel r1 r2 s)
    \<and> bounds (stateAfter (animationFinished s))"
proof -
  from assms have b: "bounds s" by (simp add: valid_def)
  have "bounds (spinWheel r1 r2 s)"
    using b by (simp add: bounds_def wheels_spinWheel)
  moreover have "bounds (stateAfter (animationFinished s))"
    using b by (simp add: bounds_def wheels_animationFinished)
  moreover have "length (wheels s) \<ge> 1 \<and> (\<forall>wheel \<in> set (wheels s). length (segments wheel) \<ge> 1)"
    using b by (simp add: bounds_def)
  ultimately show ?thesis
    using b assms
    by (simp add: bounds_addWheel bounds_deleteWheel bounds_renameWheel bounds_addSegment
      bounds_updateSegmentLabel bounds_deleteSegment bounds_setActiveWheel)
qed

theorem mutators_keep_bounds_witness:
  "valid twoWheels
   \<and> bounds (addWheel ''c'' ''c1'' twoWheels)
   \<and> bounds (deleteWheel ''b'' twoWheels)
   \<and> bounds (deleteSegment (\<lambda>i. ''n'') ''b1'' twoWheels)
   \<and> bounds (stateAfter (animationFinished (spinWheel 0 0 twoWheels)))"
  using valid_twoWheels
    mutators_keep_bounds [OF valid_twoWheels, of "''c''" "''c1''" "''b''" "''x''" "\<lambda>i. ''n''" "''b1''" "''y''" 0 0]
  by (simp add: bounds_def wheels_animationFinished wheels_spinWheel)

text \<open>
  The distinct ids of a valid state are needed by \<open>deleteWheel\<close>: it removes every wheel
  that has the given id, so two wheels that share an id are both removed.
\<close>

lemma bounds_need_distinct_ids:
  "bounds (initialState\<lparr>wheels := [wheelA, wheelA]\<rparr>)
   \<and> wheels (deleteWheel ''a'' (initialState\<lparr>wheels := [wheelA, wheelA]\<rparr>)) = []"
  by (simp add: bounds_def deleteWheel_def initialState_def wheelA_def)

subsection \<open>What a mutation of the active wheel leaves alone\<close>

lemma othersUnchanged_refl: "othersUnchanged s s"
  by (simp add: othersUnchanged_def)

lemma othersUnchanged_updateWheel:
  assumes "activeWheel s = Some active"
    and "\<And>i wheel. wheel_id (updater i wheel) = wheel_id wheel"
    and "wheels s' = updateWheel (wheel_id active) updater (wheels s)"
  shows "othersUnchanged s s'"
  unfolding othersUnchanged_def
  by (simp add: assms updateWheel_keeps_ids nth_updateWheel)

text \<open>
  C10. In every state, \<open>renameWheel\<close>, \<open>addSegment\<close>, \<open>updateSegmentLabel\<close> and
  \<open>deleteSegment\<close> leave every wheel other than the targeted one, the active wheel,
  completely unchanged: a wheel whose id is not the id of the active wheel is the same
  wheel afterwards, with its id, name and segments. The id of every wheel, the targeted
  one included, is unchanged.
\<close>

theorem wheel_mutations_frame:
  "othersUnchanged s (renameWheel nm s)
   \<and> othersUnchanged s (addSegment gen s)
   \<and> othersUnchanged s (updateSegmentLabel segmentId lbl s)
   \<and> othersUnchanged s (deleteSegment gen segmentId s)"
proof (cases "activeWheel s")
  case None
  then show ?thesis
    by (simp add: renameWheel_def addSegment_def updateSegmentLabel_def deleteSegment_def
        othersUnchanged_refl)
next
  case (Some active)
  have "othersUnchanged s (renameWheel nm s)"
    by (rule othersUnchanged_updateWheel [OF Some, where updater = "\<lambda>i wheel. wheel\<lparr>name := nm\<rparr>"])
      (simp_all add: renameWheel_def Some)
  moreover have "othersUnchanged s (addSegment gen s)"
    by (rule othersUnchanged_updateWheel [OF Some, where updater = "\<lambda>i wheel. wheel\<lparr>segments :=
          segments wheel @ [createSegment (gen i)
            (Some (''Segment '' @ showNat (length (segments wheel) + 1)))]\<rparr>"])
      (simp_all add: addSegment_def Some)
  moreover have "othersUnchanged s (updateSegmentLabel segmentId lbl s)"
    by (rule othersUnchanged_updateWheel [OF Some, where updater = "\<lambda>i wheel. wheel\<lparr>segments :=
          map (\<lambda>seg. if segment_id seg = segmentId then seg\<lparr>label := lbl\<rparr> else seg)
            (segments wheel)\<rparr>"])
      (simp_all add: updateSegmentLabel_def Some)
  moreover have "othersUnchanged s (deleteSegment gen segmentId s)"
    by (rule othersUnchanged_updateWheel [OF Some, where updater = "\<lambda>i wheel. wheel\<lparr>segments :=
          ensureSegments (gen i)
            (filter (\<lambda>seg. segment_id seg \<noteq> segmentId) (segments wheel))\<rparr>"])
      (simp_all add: deleteSegment_def Some Let_def)
  ultimately show ?thesis by simp
qed

theorem wheel_mutations_frame_witness:
  "0 < length (wheels twoWheels)
   \<and> Some (wheel_id (wheels twoWheels ! 0)) \<noteq> map_option wheel_id (activeWheel twoWheels)
   \<and> wheels (renameWheel ''Lunch'' twoWheels) ! 0 = wheelA
   \<and> wheels (addSegment (\<lambda>i. ''n'') twoWheels) ! 0 = wheelA
   \<and> wheels (updateSegmentLabel ''b1'' ''Soup'' twoWheels) ! 0 = wheelA
   \<and> wheels (deleteSegment (\<lambda>i. ''n'') ''b1'' twoWheels) ! 0 = wheelA
   \<and> map wheel_id (wheels (deleteSegment (\<lambda>i. ''n'') ''b1'' twoWheels)) = [''a'', ''b'']"
proof -
  have len: "0 < length (wheels twoWheels)"
    by (simp add: twoWheels_def initialState_def)
  have other: "Some (wheel_id (wheels twoWheels ! 0)) \<noteq> map_option wheel_id (activeWheel twoWheels)"
    by (simp add: activeWheel_twoWheels) (simp add: twoWheels_def initialState_def wheelA_def wheelB_def)
  have w0: "wheels twoWheels ! 0 = wheelA" and ids: "map wheel_id (wheels twoWheels) = [''a'', ''b'']"
    by (simp_all add: twoWheels_def initialState_def wheelA_def wheelB_def)
  from wheel_mutations_frame [of twoWheels "''Lunch''" "\<lambda>i. ''n''" "''b1''" "''Soup''"]
  show ?thesis
    unfolding othersUnchanged_def using len other w0 ids by simp
qed

text \<open>
  Where the ids are distinct, the wheels whose id differs from the id of the active wheel
  are all the wheels but the active one.
\<close>

lemma other_wheel_iff:
  assumes "distinct (map wheel_id (wheels s))" and "activeWheel s = Some active"
    and "i < length (wheels s)"
  shows "wheels s ! i \<noteq> active \<longleftrightarrow> wheel_id (wheels s ! i) \<noteq> wheel_id active"
proof -
  from assms(2) have "active \<in> set (wheels s)"
    using activeWheel_Some [of s] by (cases "wheels s = []") (auto simp: activeWheel_def)
  then obtain j where j: "j < length (wheels s)" "wheels s ! j = active"
    by (auto simp: in_set_conv_nth)
  have "wheel_id (wheels s ! i) = wheel_id (wheels s ! j) \<longleftrightarrow> i = j"
    using assms(1,3) j(1) nth_eq_iff_index_eq [of "map wheel_id (wheels s)" i j] by simp
  with j show ?thesis by auto
qed

subsection \<open>Deleting a wheel\<close>

text \<open>
  C7. In a state with exactly one wheel, \<open>deleteWheel\<close> returns at once, whatever id it is
  given: the wheels, the active wheel id, the selected segment id and every other
  component of the state are unchanged.
\<close>

theorem deleteWheel_only_wheel_noop:
  "length (wheels s) = 1 \<Longrightarrow> deleteWheel wheelId s = s"
  by (simp add: deleteWheel_def)

theorem deleteWheel_only_wheel_noop_witness:
  "length (wheels oneWheel) = 1 \<and> deleteWheel ''a'' oneWheel = oneWheel"
proof -
  have one: "length (wheels oneWheel) = 1"
    by (simp add: oneWheel_def initialState_def)
  show ?thesis
    using one deleteWheel_only_wheel_noop [OF one, of "''a''"] by simp
qed

text \<open>
  C5, as amended. In a state with at least two wheels whose ids are distinct,
  \<open>deleteWheel\<close> with the id of a wheel of the collection removes exactly that wheel and
  keeps the others in their order. If the removed wheel was the active one
  (\<open>activeWheelId\<close> is its id), the first remaining wheel becomes the active wheel, the
  effect that follows the render sets \<open>activeWheelId\<close> to its id, and the selected segment
  is cleared. If another wheel was active, \<open>activeWheelId\<close> and \<open>selectedSegmentId\<close>
  are both unchanged.
\<close>

theorem deleteWheel_removes:
  assumes "length (wheels s) \<ge> 2"
    and "distinct (map wheel_id (wheels s))"
    and "w \<in> set (wheels s)"
  shows "wheels (deleteWheel (wheel_id w) s) = remove1 w (wheels s)
    \<and> (activeWheelId s = Some (wheel_id w) \<longrightarrow>
         activeWheel (deleteWheel (wheel_id w) s) = Some (hd (remove1 w (wheels s)))
         \<and> activeWheelId (activeWheelEffect (Some (wheel_id w)) (deleteWheel (wheel_id w) s))
             = Some (wheel_id (hd (remove1 w (wheels s))))
         \<and> selectedSegmentId (deleteWheel (wheel_id w) s) = None)
    \<and> (activeWheelId s \<noteq> Some (wheel_id w) \<longrightarrow>
         activeWheelId (deleteWheel (wheel_id w) s) = activeWheelId s
         \<and> selectedSegmentId (deleteWheel (wheel_id w) s) = selectedSegmentId s)"
proof -
  let ?rest = "filter (\<lambda>wheel. wheel_id wheel \<noteq> wheel_id w) (wheels s)"
  let ?s' = "deleteWheel (wheel_id w) s"
  from assms(1) have many: "length (wheels s) \<noteq> 1" by simp
  have rest: "?rest = remove1 w (wheels s)"
    using assms(2,3) by (rule filter_other_id_remove1)
  have ne: "?rest \<noteq> []"
    using assms(1,2) by (simp add: filter_other_ids_nonempty)
  have next_wheel: "find (\<lambda>wheel. wheel_id wheel \<noteq> wheel_id w) (wheels s) = Some (hd ?rest)"
    using ne by (rule find_filter_hd)
  have hd_id: "wheel_id (hd ?rest) \<noteq> wheel_id w"
    using ne hd_in_set [of ?rest] by auto
  have wheels': "wheels ?s' = ?rest"
    using many by (simp add: deleteWheel_def Let_def)
  have inactive: "activeWheelId s \<noteq> Some (wheel_id w) \<Longrightarrow>
      activeWheelId ?s' = activeWheelId s \<and> selectedSegmentId ?s' = selectedSegmentId s"
    using many by (simp add: deleteWheel_def Let_def)
  have active: "activeWheel ?s' = Some (hd ?rest)
      \<and> activeWheelId (activeWheelEffect (Some (wheel_id w)) ?s') = Some (wheel_id (hd ?rest))
      \<and> selectedSegmentId ?s' = None"
    if a: "activeWheelId s = Some (wheel_id w)"
  proof -
    have id': "activeWheelId ?s' = (if wheel_id (hd ?rest) = [] then None else Some (wheel_id (hd ?rest)))"
      using many a by (simp add: deleteWheel_def Let_def next_wheel)
    have aw: "activeWheel ?s' = Some (hd ?rest)"
      using ne id' wheels' activeWheel_first [of ?s'] by simp
    have sel: "selectedSegmentId ?s' = None"
      using many a by (simp add: deleteWheel_def Let_def)
    from aw hd_id have "activeWheelId (activeWheelEffect (Some (wheel_id w)) ?s') = Some (wheel_id (hd ?rest))"
      by (simp add: activeWheelEffect_def)
    with aw sel show ?thesis by simp
  qed
  from wheels' inactive active show ?thesis
    unfolding rest by blast
qed

theorem deleteWheel_removes_witness:
  "length (wheels twoWheelsSelected) \<ge> 2
   \<and> distinct (map wheel_id (wheels twoWheelsSelected))
   \<and> wheelB \<in> set (wheels twoWheelsSelected) \<and> wheelA \<in> set (wheels twoWheelsSelected)
   \<and> activeWheelId twoWheelsSelected = Some (wheel_id wheelB)
   \<and> activeWheelId twoWheelsSelected \<noteq> Some (wheel_id wheelA)
   \<and> wheels (deleteWheel (wheel_id wheelB) twoWheelsSelected) = [wheelA]
   \<and> activeWheel (deleteWheel (wheel_id wheelB) twoWheelsSelected) = Some wheelA
   \<and> selectedSegmentId (deleteWheel (wheel_id wheelB) twoWheelsSelected) = None
   \<and> wheels (deleteWheel (wheel_id wheelA) twoWheelsSelected) = [wheelB]
   \<and> activeWheelId (deleteWheel (wheel_id wheelA) twoWheelsSelected) = Some ''b''
   \<and> selectedSegmentId (deleteWheel (wheel_id wheelA) twoWheelsSelected) = Some ''b1''"
proof -
  have ws: "wheels twoWheelsSelected = [wheelA, wheelB]"
    and act: "activeWheelId twoWheelsSelected = Some ''b''"
    and sel: "selectedSegmentId twoWheelsSelected = Some ''b1''"
    by (simp_all add: twoWheelsSelected_def twoWheels_def initialState_def)
  have ids: "wheel_id wheelA = ''a''" "wheel_id wheelB = ''b''"
    by (simp_all add: wheelA_def wheelB_def)
  have ne: "wheelA \<noteq> wheelB"
    by (simp add: wheelA_def wheelB_def)
  have len: "length (wheels twoWheelsSelected) \<ge> 2"
    and dist: "distinct (map wheel_id (wheels twoWheelsSelected))"
    and inB: "wheelB \<in> set (wheels twoWheelsSelected)"
    and inA: "wheelA \<in> set (wheels twoWheelsSelected)"
    by (simp_all add: ws ids)
  from deleteWheel_removes [OF len dist inB] deleteWheel_removes [OF len dist inA]
  show ?thesis
    using len dist inA inB ne by (simp add: ws act sel ids)
qed

text \<open>
  C5 as first stated clears the selected segment on every deletion. With the first of two
  wheels active and one of its segments selected, deleting the second wheel keeps the
  selection.
\<close>

theorem deleteWheel_keeps_selection_counterexample:
  "length (wheels firstActive) \<ge> 2
   \<and> ''b'' \<in> wheel_id ` set (wheels firstActive)
   \<and> selectedSegmentId (deleteWheel ''b'' firstActive) = Some ''a1''
   \<and> selectedSegmentId (deleteWheel ''b'' firstActive) \<noteq> None"
  by (simp add: firstActive_def twoWheels_def initialState_def wheelA_def wheelB_def
      deleteWheel_def)

subsection \<open>Deleting a segment\<close>

lemma ids_deleteSegment:
  "map wheel_id (wheels (deleteSegment gen segmentId s)) = map wheel_id (wheels s)"
  by (cases "activeWheel s") (simp_all add: deleteSegment_def Let_def updateWheel_keeps_ids)

text \<open>
  C6. In a valid state whose active wheel is at position \<open>i\<close>, \<open>deleteSegment\<close> removes
  from the active wheel the segments with the given id and keeps the other segments in
  their order; if no segment is left, the wheel gets exactly one segment, freshly
  generated, with the label \<open>Default\<close>. No other wheel changes, the wheel stays the active
  one, and \<open>selectedSegmentId\<close> becomes absent if it was the given id and is unchanged
  otherwise.
\<close>

theorem deleteSegment_effect:
  assumes "valid s" and "i < length (wheels s)" and "activeWheel s = Some (wheels s ! i)"
  shows
    "(let active = wheels s ! i;
          remaining = filter (\<lambda>seg. segment_id seg \<noteq> segmentId) (segments active);
          updated = active\<lparr>segments :=
            (if remaining = [] then [\<lparr>segment_id = gen i, label = ''Default''\<rparr>] else remaining)\<rparr>;
          s' = deleteSegment gen segmentId s
      in wheels s' = (wheels s)[i := updated]
         \<and> activeWheel s' = Some updated
         \<and> activeWheelId s' = activeWheelId s
         \<and> selectedSegmentId s' =
             (if selectedSegmentId s = Some segmentId then None else selectedSegmentId s))"
proof -
  define active where "active = wheels s ! i"
  let ?s' = "deleteSegment gen segmentId s"
  let ?remaining = "filter (\<lambda>seg. segment_id seg \<noteq> segmentId) (segments active)"
  let ?upd = "\<lambda>i wheel. wheel\<lparr>segments := ensureSegments (gen i)
      (filter (\<lambda>seg. segment_id seg \<noteq> segmentId) (segments wheel))\<rparr>"
  let ?updated = "active\<lparr>segments :=
      (if ?remaining = [] then [\<lparr>segment_id = gen i, label = ''Default''\<rparr>] else ?remaining)\<rparr>"
  from assms(1) have dist: "distinct (map wheel_id (wheels s))" and ne: "wheels s \<noteq> []"
    by (auto simp: valid_def bounds_alt)
  have act: "activeWheel s = Some active"
    by (simp add: assms(3) active_def)
  have upd: "?upd i active = ?updated"
    by (simp add: ensureSegments_def createSegment_def)
  have "wheels ?s' = updateWheel (wheel_id (wheels s ! i)) ?upd (wheels s)"
    by (simp add: deleteSegment_def assms(3) Let_def)
  also have "\<dots> = (wheels s)[i := ?upd i (wheels s ! i)]"
    using dist assms(2) by (rule updateWheel_distinct)
  finally have wheels': "wheels ?s' = (wheels s)[i := ?updated]"
    using upd by (simp add: active_def)
  have aid: "activeWheelId ?s' = activeWheelId s"
    and sel: "selectedSegmentId ?s' =
      (if selectedSegmentId s = Some segmentId then None else selectedSegmentId s)"
    by (simp_all add: deleteSegment_def assms(3) Let_def)
  have ids: "map wheel_id (wheels ?s') = map wheel_id (wheels s)"
    by (rule ids_deleteSegment)
  from ne wheels' have "wheels ?s' \<noteq> []" by simp
  then obtain a' where a': "activeWheel ?s' = Some a'" "a' \<in> set (wheels ?s')"
    using activeWheel_Some [of ?s'] by auto
  then obtain j where j: "j < length (wheels s)" "wheels ?s' ! j = a'"
    by (auto simp: in_set_conv_nth wheels')
  from activeWheel_id_cong [OF ids aid] a'(1) act
  have "wheel_id a' = wheel_id active" by simp
  moreover have "wheel_id a' = wheel_id (wheels s ! j)"
    using ids j nth_map [of j "wheels ?s'" wheel_id] nth_map [of j "wheels s" wheel_id]
    by (simp add: wheels')
  ultimately have "wheel_id (wheels s ! j) = wheel_id (wheels s ! i)"
    by (simp add: active_def)
  then have "j = i"
    using dist assms(2) j(1) nth_eq_iff_index_eq [of "map wheel_id (wheels s)" j i] by simp
  with j assms(2) have "a' = ?updated" by (simp add: wheels')
  with a'(1) wheels' aid sel show ?thesis
    by (simp add: Let_def active_def)
qed

theorem deleteSegment_effect_witness:
  "valid twoWheelsSelected \<and> 1 < length (wheels twoWheelsSelected)
   \<and> activeWheel twoWheelsSelected = Some (wheels twoWheelsSelected ! 1)
   \<and> wheels (deleteSegment (\<lambda>i. ''n'') ''b1'' twoWheelsSelected)
       = [wheelA, wheelB\<lparr>segments := [\<lparr>segment_id = ''n'', label = ''Default''\<rparr>]\<rparr>]
   \<and> selectedSegmentId (deleteSegment (\<lambda>i. ''n'') ''b1'' twoWheelsSelected) = None
   \<and> valid firstActive \<and> 0 < length (wheels firstActive)
   \<and> activeWheel firstActive = Some (wheels firstActive ! 0)
   \<and> wheels (deleteSegment (\<lambda>i. ''n'') ''a2'' firstActive)
       = [wheelA\<lparr>segments := [\<lparr>segment_id = ''a1'', label = ''Default''\<rparr>]\<rparr>, wheelB]
   \<and> selectedSegmentId (deleteSegment (\<lambda>i. ''n'') ''a2'' firstActive) = Some ''a1''"
proof -
  have ws: "wheels twoWheelsSelected = [wheelA, wheelB]" "wheels firstActive = [wheelA, wheelB]"
    and sel: "selectedSegmentId twoWheelsSelected = Some ''b1''"
      "selectedSegmentId firstActive = Some ''a1''"
    by (simp_all add: twoWheelsSelected_def firstActive_def twoWheels_def initialState_def)
  have segs: "segments wheelB = [\<lparr>segment_id = ''b1'', label = ''Default''\<rparr>]"
    "segments wheelA = [\<lparr>segment_id = ''a1'', label = ''Default''\<rparr>,
                        \<lparr>segment_id = ''a2'', label = ''Segment 2''\<rparr>]"
    by (simp_all add: wheelA_def wheelB_def)
  have len: "1 < length (wheels twoWheelsSelected)" "0 < length (wheels firstActive)"
    by (simp_all add: ws)
  have act: "activeWheel twoWheelsSelected = Some (wheels twoWheelsSelected ! 1)"
    "activeWheel firstActive = Some (wheels firstActive ! 0)"
    by (simp_all add: ws activeWheel_twoWheelsSelected activeWheel_firstActive)
  from deleteSegment_effect [OF valid_twoWheelsSelected len(1) act(1), of "''b1''" "\<lambda>i. ''n''"]
    deleteSegment_effect [OF valid_firstActive len(2) act(2), of "''a2''" "\<lambda>i. ''n''"]
  show ?thesis
    using len act valid_twoWheelsSelected valid_firstActive
    by (simp add: ws sel segs Let_def)
qed

subsection \<open>The spin\<close>

lemma winningIndex_bounds:
  assumes "segs \<noteq> []" and "length segs < 2 ^ 32"
    and "isDouble r" and "0 \<le> r" and "r < 1"
  shows "0 \<le> winningIndex r segs" and "winningIndex r segs < int (length segs)"
proof -
  define n where "n = length segs"
  from assms(1) have n1: "1 \<le> real n" by (cases segs) (simp_all add: n_def)
  from assms(2) have "n \<le> 2 ^ 53"
    unfolding n_def by (rule less_imp_le [OF less_le_trans]) simp
  then have dn: "round64 (real n) = real n" by (rule round64_of_nat)
  have "(2::real) powi (- 1021) \<le> 2 powi 0" by (rule powi_mono) simp
  with n1 have nn: "2 powi (- 1021) \<le> real n" by simp
  from assms(3) have dr: "round64 r = r" by (simp add: isDouble_def)
  from assms(4) n1 have "0 \<le> r * real n" by simp
  then have "0 \<le> round64 (r * real n)" by (rule round64_nonneg)
  then show "0 \<le> winningIndex r segs"
    by (simp add: winningIndex_def n_def)
  from round64_scaled_below [OF dn nn dr assms(4,5)]
  have "round64 (r * real n) < real n" .
  then show "winningIndex r segs < int (length segs)"
    by (simp add: winningIndex_def n_def floor_less_iff)
qed

text \<open>
  C2. For a non-empty segment list, whose length as that of a JavaScript array is below
  \<open>2^32\<close>, and a draw \<open>r\<close> that is a double with \<open>0 \<le> r < 1\<close>, the index
  \<open>floor (r * segments.length)\<close>, with the product rounded to a double as the source
  computes it, lies in \<open>[0, segments.length)\<close>, so \<open>segments[index]\<close> is in bounds, and
  the winner that \<open>spinWheel\<close> captures is that segment.
\<close>

theorem winner_in_bounds:
  assumes "segs \<noteq> []" and "length segs < 2 ^ 32"
    and "isDouble r" and "0 \<le> r" and "r < 1"
  shows "winningIndex r segs = \<lfloor>round64 (r * real (length segs))\<rfloor>
    \<and> 0 \<le> winningIndex r segs \<and> winningIndex r segs < int (length segs)
    \<and> at_index segs (winningIndex r segs) = Some (segs ! nat (winningIndex r segs))
    \<and> (\<forall>s active. activeWheel s = Some active \<and> \<not> isSpinning s \<and> segments active = segs \<longrightarrow>
          map_option winner (pending (spinWheel r r2 s))
            = Some (Some (segs ! nat (winningIndex r segs))))"
  using winningIndex_bounds [OF assms]
  by (simp add: at_index_def spinWheel_def Let_def) (simp add: winningIndex_def)

text \<open>
  A draw at which the rounding decides the index: three times the draw is just below 2 and
  rounds to 2, so the index is 2, where the exact product would give 1.
\<close>

lemma edge_draw: "isDouble (6004799503160661 / 2 ^ 53)"
proof (rule isDouble_small)
  show "round64 (6004799503160661 / 2 ^ 53) = 6004799503160661 / 2 ^ 53"
    by (rule round64_dyadic [where m = 6004799503160661 and k = "- 53"]) simp_all
  show "\<bar>6004799503160661 / 2 ^ 53 :: real\<bar> \<le> 1" by simp
qed

lemma edge_product: "round64 (6004799503160661 / 2 ^ 53 * 3) = 2"
proof -
  have "round64 (6004799503160661 / 2 ^ 53 * 3) = 2 powi (0 - 52) * of_int 9007199254740992"
    by (rule round64_eval) (simp_all add: roundHalfEven_def)
  then show ?thesis by simp
qed

theorem winner_in_bounds_witness:
  "threeSegments \<noteq> [] \<and> length threeSegments < 2 ^ 32
   \<and> isDouble (6004799503160661 / 2 ^ 53)
   \<and> (0::real) \<le> 6004799503160661 / 2 ^ 53 \<and> (6004799503160661 / 2 ^ 53 :: real) < 1
   \<and> winningIndex (6004799503160661 / 2 ^ 53) threeSegments = 2
   \<and> at_index threeSegments 2 = Some \<lparr>segment_id = ''t2'', label = ''Segment 3''\<rparr>
   \<and> activeWheel threeState = Some \<lparr>wheel_id = ''t'', name = ''Wheel 1'', segments = threeSegments\<rparr>
   \<and> \<not> isSpinning threeState
   \<and> map_option winner (pending (spinWheel (6004799503160661 / 2 ^ 53) 0 threeState))
       = Some (Some \<lparr>segment_id = ''t2'', label = ''Segment 3''\<rparr>)"
proof -
  let ?r = "6004799503160661 / 2 ^ 53 :: real"
  let ?w = "\<lparr>wheel_id = ''t'', name = ''Wheel 1'', segments = threeSegments\<rparr>"
  have ne: "threeSegments \<noteq> []" and len: "length threeSegments < 2 ^ 32"
    by (simp_all add: threeSegments_def)
  have r: "(0::real) \<le> ?r" "?r < 1" by simp_all
  have act: "activeWheel threeState = Some ?w"
    by (simp add: activeWheel_def threeState_def initialState_def)
  have idle: "\<not> isSpinning threeState" by (simp add: threeState_def initialState_def)
  have l3: "real (length threeSegments) = 3" by (simp add: threeSegments_def)
  have ix: "winningIndex ?r threeSegments = 2"
    by (simp only: winningIndex_def l3 edge_product) simp
  have nth: "threeSegments ! nat 2 = \<lparr>segment_id = ''t2'', label = ''Segment 3''\<rparr>"
    by (simp add: threeSegments_def)
  from winner_in_bounds [OF ne len edge_draw r, of 0]
  have at: "at_index threeSegments 2 = Some (threeSegments ! nat 2)"
    and sp: "activeWheel threeState = Some ?w \<and> \<not> isSpinning threeState
        \<and> segments ?w = threeSegments \<longrightarrow>
      map_option winner (pending (spinWheel ?r 0 threeState))
        = Some (Some (threeSegments ! nat 2))"
    unfolding ix by blast+
  from at sp act idle ne len edge_draw r ix show ?thesis
    unfolding nth by simp
qed

lemma anglePerSegment_facts:
  assumes "segs \<noteq> []" and "length segs < 2 ^ 32"
  shows "round64 (anglePerSegment segs) = anglePerSegment segs"
    and "2 powi (- 24) \<le> anglePerSegment segs"
    and "real (length segs) * anglePerSegment segs \<le> 360 * (1 + 2 powi (- 53))"
proof -
  define n where "n = real (length segs)"
  from assms(1) have n1: "1 \<le> n" by (cases segs) (simp_all add: n_def)
  from assms(2) have "real (length segs) < real (2 ^ 32)" by (simp only: of_nat_less_iff)
  then have n32: "n < 2 ^ 32" by (simp add: n_def)
  have x0: "0 \<le> 360 / n" using n1 by simp
  show "round64 (anglePerSegment segs) = anglePerSegment segs"
    unfolding anglePerSegment_def n_def [symmetric] using x0 by (rule round64_idem)
  have "(2::real) powi (- 24) * n \<le> 2 powi (- 24) * 2 ^ 32"
    using n32 by (intro mult_left_mono) simp_all
  also have "\<dots> \<le> 360" by simp
  finally have lo: "2 powi (- 24) \<le> 360 / n"
    using n1 by (simp add: field_simps)
  have "round64 (2 powi (- 24)) \<le> round64 (360 / n)"
    using _ lo by (rule round64_mono) simp
  moreover have "round64 (2 powi (- 24)) = 2 powi (- 24)"
    by (rule round64_dyadic [where m = 1 and k = "- 24"]) simp_all
  ultimately show "2 powi (- 24) \<le> anglePerSegment segs"
    by (simp only: anglePerSegment_def n_def)
  have "(2::real) powi (- 1022) \<le> 2 powi (- 24)" by (rule powi_mono) simp
  with lo have "2 powi (- 1022) \<le> 360 / n" by linarith
  then have "round64 (360 / n) \<le> 360 / n * (1 + 2 powi (- 53))"
    by (rule round64_relative)
  then have "n * round64 (360 / n) \<le> n * (360 / n * (1 + 2 powi (- 53)))"
    using n1 by (intro mult_left_mono) simp_all
  also have "\<dots> = 360 * (1 + 2 powi (- 53))" using n1 by simp
  finally show "real (length segs) * anglePerSegment segs \<le> 360 * (1 + 2 powi (- 53))"
    by (simp only: anglePerSegment_def n_def)
qed

lemma randomOffset_bounds:
  assumes "segs \<noteq> []" and "length segs < 2 ^ 32"
    and "isDouble r" and "0 \<le> r" and "r < 1"
  shows "0 \<le> randomOffset r segs" and "randomOffset r segs < anglePerSegment segs"
proof -
  note a = anglePerSegment_facts [OF assms(1,2)]
  have "0 < (2::real) powi (- 24)" by (rule powi_pos)
  with a(2) have pa: "0 < anglePerSegment segs" by linarith
  with assms(4) have "0 \<le> r * anglePerSegment segs" by simp
  then show "0 \<le> randomOffset r segs"
    unfolding randomOffset_def by (rule round64_nonneg)
  have "(2::real) powi (- 1021) \<le> 2 powi (- 24)" by (rule powi_mono) simp
  with a(2) have "2 powi (- 1021) \<le> anglePerSegment segs" by linarith
  moreover from assms(3) have "round64 r = r" by (simp add: isDouble_def)
  ultimately show "randomOffset r segs < anglePerSegment segs"
    unfolding randomOffset_def using a(1) assms(4,5) by (intro round64_scaled_below)
qed

text \<open>
  C3, as amended. For a non-empty list of \<open>n\<close> segments, \<open>n\<close> below \<open>2^32\<close>, and draws
  that are doubles in \<open>[0, 1)\<close>, the offset lies in \<open>[0, anglePerSegment)\<close>, where
  \<open>anglePerSegment\<close> is the double nearest to \<open>360 / n\<close>; the target rotation is
  \<open>4 * 360 + index * anglePerSegment + offset\<close> with every operation rounded to a
  double; and it is at least 1440 and at most \<open>1800 + 2 powi (- 42)\<close>, the double next
  above 1800.
\<close>

theorem targetRotation_bounds:
  assumes "segs \<noteq> []" and "length segs < 2 ^ 32"
    and "isDouble r1" and "0 \<le> r1" and "r1 < 1"
    and "isDouble r2" and "0 \<le> r2" and "r2 < 1"
  shows "0 \<le> randomOffset r2 segs \<and> randomOffset r2 segs < anglePerSegment segs
    \<and> (\<exists>t. targetRotation r1 r2 segs = Fin t
          \<and> t = round64 (round64 (1440 + round64 (real_of_int (winningIndex r1 segs)
                    * anglePerSegment segs)) + randomOffset r2 segs)
          \<and> 1440 \<le> t \<and> t \<le> 1800 + 2 powi (- 42))"
proof -
  define n where "n = real (length segs)"
  define i where "i = real_of_int (winningIndex r1 segs)"
  define a where "a = anglePerSegment segs"
  define p where "p = round64 (i * a)"
  define s1 where "s1 = round64 (1440 + p)"
  define off where "off = randomOffset r2 segs"
  define u :: real where "u = 2 powi (- 53)"
  have u: "0 < u" "u = 1 / 2 ^ 53" by (simp_all add: u_def power_int_minus_divide)
  note af = anglePerSegment_facts [OF assms(1,2), folded a_def n_def u_def]
  note ob = randomOffset_bounds [OF assms(1,2,6-8), folded a_def off_def]
  from winningIndex_bounds [OF assms(1-5)]
  have i0: "0 \<le> i" and i1: "i + 1 \<le> n" unfolding i_def n_def by linarith+
  have "0 < (2::real) powi (- 24)" by (rule powi_pos)
  with af(2) have pa: "0 < a" by linarith
  have ia0: "0 \<le> i * a" using i0 pa by simp
  have p0: "0 \<le> p" unfolding p_def using ia0 by (rule round64_nonneg)
  have prel: "p \<le> i * a * (1 + u)"
  proof (cases "i = 0")
    case True
    then show ?thesis by (simp add: p_def)
  next
    case False
    with i0 have "0 < winningIndex r1 segs" unfolding i_def by simp
    then have "1 \<le> winningIndex r1 segs" by simp
    then have "1 \<le> i" unfolding i_def by simp
    with pa have "1 * a \<le> i * a" by (intro mult_right_mono) simp_all
    moreover have "(2::real) powi (- 1022) \<le> 2 powi (- 24)" by (rule powi_mono) simp
    ultimately have "2 powi (- 1022) \<le> i * a" using af(2) by linarith
    then show ?thesis unfolding p_def u_def by (rule round64_relative)
  qed
  have "i * a + a \<le> n * a"
  proof -
    from i1 pa have "(i + 1) * a \<le> n * a" by (intro mult_right_mono) simp_all
    then show ?thesis by (simp add: algebra_simps)
  qed
  with af(3) have ia: "i * a + a \<le> 360 * (1 + u)" by linarith
  have sum: "p + a \<le> 360 * (1 + u) * (1 + u)"
  proof -
    have "0 \<le> a * u" using pa u(1) by simp
    then have "a \<le> a * (1 + u)" by (simp add: algebra_simps)
    with prel have "p + a \<le> i * a * (1 + u) + a * (1 + u)" by linarith
    also have "\<dots> = (i * a + a) * (1 + u)" by (simp add: algebra_simps)
    also have "\<dots> \<le> 360 * (1 + u) * (1 + u)"
      using ia u(1) by (intro mult_right_mono) simp_all
    finally show ?thesis .
  qed
  have small: "360 * (1 + u) * (1 + u) + 2 powi (- 42) / 2 \<le> 360 + 2 powi (- 42)"
    unfolding u(2) by (simp add: power_int_minus_divide)
  have plt: "1440 + p < 2 powi (10 + 1)"
  proof -
    have "360 * (1 + u) * (1 + u) < 608" unfolding u(2) by simp
    with sum pa have "p < 608" by linarith
    then show ?thesis by simp
  qed
  have pge: "2 powi 10 \<le> 1440 + p" using p0 by simp
  from ulpExponent_binade [OF pge plt] have "ulpExponent (1440 + p) = - 42" by simp
  from round64_upper [OF this] have s1up: "s1 \<le> 1440 + p + 2 powi (- 42) / 2"
    by (simp only: s1_def)
  have s1lo: "1440 \<le> s1"
  proof -
    have "round64 1440 \<le> round64 (1440 + p)" using p0 by (intro round64_mono) simp_all
    then show ?thesis by (simp only: s1_def round64_1440)
  qed
  define t where "t = round64 (s1 + off)"
  have tlo: "1440 \<le> t"
  proof -
    have "round64 1440 \<le> round64 (s1 + off)"
      using s1lo ob(1) by (intro round64_mono) simp_all
    then show ?thesis by (simp only: t_def round64_1440)
  qed
  have thi: "t \<le> 1800 + 2 powi (- 42)"
  proof -
    have "s1 + off \<le> 1440 + (p + a) + 2 powi (- 42) / 2"
      using s1up ob(2) by linarith
    also have "\<dots> \<le> 1440 + (360 + 2 powi (- 42))"
      using sum small by linarith
    finally have "s1 + off \<le> 1800 + 2 powi (- 42)" by simp
    moreover have "0 \<le> s1 + off" using s1lo ob(1) by linarith
    ultimately have "round64 (s1 + off) \<le> round64 (1800 + 2 powi (- 42))"
      by (rule round64_mono [rotated])
    then show ?thesis by (simp only: t_def round64_top)
  qed
  have "targetRotation r1 r2 segs = Fin t"
    using assms(1)
    by (simp add: targetRotation_def extraSpins_def round64_1440 t_def s1_def p_def i_def
        a_def off_def)
  with ob tlo thi show ?thesis
    by (simp add: t_def s1_def p_def i_def a_def off_def)
qed

text \<open>The steps of the computation, for its evaluation at given draws.\<close>

lemma winningIndex_eq:
  assumes "real (length segs) = n" and "round64 (r * n) = x" and "\<lfloor>x\<rfloor> = i"
  shows "winningIndex r segs = i"
  by (simp only: winningIndex_def assms)

lemma anglePerSegment_eq:
  assumes "real (length segs) = n" and "round64 (360 / n) = a"
  shows "anglePerSegment segs = a"
  by (simp only: anglePerSegment_def assms)

lemma randomOffset_eq:
  assumes "anglePerSegment segs = a" and "round64 (r * a) = off"
  shows "randomOffset r segs = off"
  by (simp only: randomOffset_def assms)

lemma targetRotation_eq:
  assumes "segs \<noteq> []" and "winningIndex r1 segs = i" and "anglePerSegment segs = a"
    and "round64 (real_of_int i * a) = p" and "round64 (1440 + p) = s"
    and "randomOffset r2 segs = off" and "round64 (s + off) = t"
  shows "targetRotation r1 r2 segs = Fin t"
proof -
  from assms(1) show ?thesis
    by (simp add: targetRotation_def extraSpins_def round64_1440 assms(2-7))
qed

text \<open>
  Another such draw, for six segments: six times the draw is just below 5 and rounds to 5.
\<close>

lemma edge_product_six:
  "winningIndex (3752999689475413 / 2 ^ 52) (replicate 6 \<lparr>segment_id = ''m'', label = ''Default''\<rparr>) = 5"
proof -
  have "round64 (3752999689475413 / 2 ^ 52 * 6) = 2 powi (2 - 52) * of_int 5629499534213120"
    by (rule round64_eval) (simp_all add: roundHalfEven_def)
  also have "\<dots> = 5" by simp
  finally have "round64 (3752999689475413 / 2 ^ 52 * 6) = 5" .
  then show ?thesis
    by (rule winningIndex_eq [rotated]) simp_all
qed

lemma two_segment_values:
  "winningIndex (3/4) (segments wheelA) = 1"
  "anglePerSegment (segments wheelA) = 180"
  "randomOffset (1/2) (segments wheelA) = 90"
  "targetRotation (3/4) (1/2) (segments wheelA) = Fin 1710"
proof -
  have len: "real (length (segments wheelA)) = 2" and ne: "segments wheelA \<noteq> []"
    by (simp_all add: wheelA_def)
  have "round64 (3/2) = 3/2"
    by (rule round64_dyadic [where m = 3 and k = "- 1"]) simp_all
  then have "round64 (3/4 * 2) = 3/2" by simp
  with len show i: "winningIndex (3/4) (segments wheelA) = 1"
    by (rule winningIndex_eq) simp
  show a: "anglePerSegment (segments wheelA) = 180"
    using len by (rule anglePerSegment_eq) (simp add: round64_numeral)
  show o: "randomOffset (1/2) (segments wheelA) = 90"
    using a by (rule randomOffset_eq) (simp add: round64_numeral)
  show "targetRotation (3/4) (1/2) (segments wheelA) = Fin 1710"
    using ne i a _ _ o by (rule targetRotation_eq [where p = 180 and s = 1620])
      (simp_all add: round64_numeral)
qed

theorem targetRotation_bounds_witness:
  "segments wheelA \<noteq> [] \<and> length (segments wheelA) < 2 ^ 32
   \<and> isDouble (3/4) \<and> (0::real) \<le> 3/4 \<and> (3/4::real) < 1
   \<and> isDouble (1/2) \<and> (0::real) \<le> 1/2 \<and> (1/2::real) < 1
   \<and> randomOffset (1/2) (segments wheelA) = 90
   \<and> anglePerSegment (segments wheelA) = 180
   \<and> targetRotation (3/4) (1/2) (segments wheelA) = Fin 1710
   \<and> (1440::real) \<le> 1710 \<and> (1710::real) \<le> 1800 + 2 powi (- 42)"
proof -
  have ne: "segments wheelA \<noteq> []" and len: "length (segments wheelA) < 2 ^ 32"
    by (simp_all add: wheelA_def)
  have r: "(0::real) \<le> 3/4" "(3/4::real) < 1" "(0::real) \<le> 1/2" "(1/2::real) < 1" by simp_all
  from targetRotation_bounds [OF ne len plain_draws(1) r(1,2) plain_draws(2) r(3,4)]
  have "(1440::real) \<le> 1710 \<and> (1710::real) \<le> 1800 + 2 powi (- 42)"
    by (auto simp only: two_segment_values num.inject)
  with ne len plain_draws(1,2) r two_segment_values(2-4) show ?thesis by blast
qed

text \<open>
  C3 as first stated has the target below 1800. With one segment and the second draw the
  largest double below 1, the offset is \<open>360 - 2 powi (- 44)\<close>, and its sum with 1440
  rounds to 1800.
\<close>

lemma one_segment_values:
  "winningIndex 0 (segments wheelB) = 0"
  "anglePerSegment (segments wheelB) = 360"
  "randomOffset topDraw (segments wheelB) = 360 - 1 / 2 ^ 44"
  "targetRotation 0 topDraw (segments wheelB) = Fin 1800"
proof -
  have len: "real (length (segments wheelB)) = 1" and ne: "segments wheelB \<noteq> []"
    by (simp_all add: wheelB_def)
  show i: "winningIndex 0 (segments wheelB) = 0"
    using len by (rule winningIndex_eq [where x = 0]) simp_all
  show a: "anglePerSegment (segments wheelB) = 360"
    using len by (rule anglePerSegment_eq) (simp add: round64_numeral)
  have "round64 (topDraw * 360) = 2 powi (8 - 52) * of_int 6333186975989759"
    unfolding topDraw_def by (rule round64_eval) (simp_all add: roundHalfEven_def)
  also have "\<dots> = 360 - 1 / 2 ^ 44" by simp
  finally show o: "randomOffset topDraw (segments wheelB) = 360 - 1 / 2 ^ 44"
    by (rule randomOffset_eq [OF a])
  have "round64 (1440 + (360 - 1 / 2 ^ 44)) = 2 powi (10 - 52) * of_int 7916483719987200"
    by (rule round64_eval) (simp_all add: roundHalfEven_def)
  also have "\<dots> = 1800" by simp
  finally have t: "round64 (1440 + (360 - 1 / 2 ^ 44)) = 1800" .
  show "targetRotation 0 topDraw (segments wheelB) = Fin 1800"
    using ne i a _ _ o t by (rule targetRotation_eq [where p = 0]) (simp_all add: round64_1440)
qed

theorem targetRotation_reaches_1800_counterexample:
  "segments wheelB \<noteq> [] \<and> length (segments wheelB) = 1
   \<and> isDouble 0 \<and> isDouble topDraw \<and> 0 \<le> topDraw \<and> topDraw < 1
   \<and> targetRotation 0 topDraw (segments wheelB) = Fin 1800
   \<and> \<not> (1800::real) < 4 * 360 + 360"
proof -
  have "segments wheelB \<noteq> []" "length (segments wheelB) = 1"
    by (simp_all add: wheelB_def)
  moreover have "\<not> (1800::real) < 4 * 360 + 360" by simp
  ultimately show ?thesis
    using zero_draw topDraw_double topDraw_range one_segment_values(4) by blast
qed

text \<open>
  The bound of the amended claim is reached: with 42 segments and both draws the largest
  double below 1, the target is the double next above 1800.
\<close>

lemma many_segment_values:
  "winningIndex topDraw manySegments = 41"
  "anglePerSegment manySegments = 4825285315039817 / 2 ^ 49"
  "randomOffset topDraw manySegments = 4825285315039816 / 2 ^ 49"
  "targetRotation topDraw topDraw manySegments = Fin (1800 + 1 / 2 ^ 42)"
proof -
  have len: "real (length manySegments) = 42" and ne: "manySegments \<noteq> []"
    by (simp_all add: manySegments_def)
  have "round64 (topDraw * 42) = 2 powi (5 - 52) * of_int 5910974510923775"
    unfolding topDraw_def by (rule round64_eval) (simp_all add: roundHalfEven_def)
  also have "\<dots> = 42 - 1 / 2 ^ 47" by simp
  finally have "round64 (topDraw * 42) = 42 - 1 / 2 ^ 47" .
  with len show i: "winningIndex topDraw manySegments = 41"
    by (rule winningIndex_eq) simp
  have "round64 (360 / 42) = 2 powi (3 - 52) * of_int 4825285315039817"
    by (rule round64_eval) (simp_all add: roundHalfEven_def)
  also have "\<dots> = 4825285315039817 / 2 ^ 49" by simp
  finally have "round64 (360 / 42) = 4825285315039817 / 2 ^ 49" .
  with len show a: "anglePerSegment manySegments = 4825285315039817 / 2 ^ 49"
    by (rule anglePerSegment_eq)
  have "round64 (topDraw * (4825285315039817 / 2 ^ 49))
      = 2 powi (3 - 52) * of_int 4825285315039816"
    unfolding topDraw_def by (rule round64_eval) (simp_all add: roundHalfEven_def)
  also have "\<dots> = 4825285315039816 / 2 ^ 49" by simp
  finally have "round64 (topDraw * (4825285315039817 / 2 ^ 49)) = 4825285315039816 / 2 ^ 49" .
  with a show o: "randomOffset topDraw manySegments = 4825285315039816 / 2 ^ 49"
    by (rule randomOffset_eq)
  have "round64 (real_of_int 41 * (4825285315039817 / 2 ^ 49))
      = 2 powi (8 - 52) * of_int 6182396809894766"
    by (rule round64_eval) (simp_all add: roundHalfEven_def)
  also have "\<dots> = 6182396809894766 / 2 ^ 44" by simp
  finally have p: "round64 (real_of_int 41 * (4825285315039817 / 2 ^ 49)) = 6182396809894766 / 2 ^ 44" .
  have "round64 (1440 + 6182396809894766 / 2 ^ 44) = 2 powi (10 - 52) * of_int 7878786178463452"
    by (rule round64_eval) (simp_all add: roundHalfEven_def)
  also have "\<dots> = 7878786178463452 / 2 ^ 42" by simp
  finally have s: "round64 (1440 + 6182396809894766 / 2 ^ 44) = 7878786178463452 / 2 ^ 42" .
  have "round64 (7878786178463452 / 2 ^ 42 + 4825285315039816 / 2 ^ 49)
      = 2 powi (10 - 52) * of_int 7916483719987201"
    by (rule round64_eval) (simp_all add: roundHalfEven_def)
  also have "\<dots> = 1800 + 1 / 2 ^ 42" by simp
  finally have t: "round64 (7878786178463452 / 2 ^ 42 + 4825285315039816 / 2 ^ 49) = 1800 + 1 / 2 ^ 42" .
  from ne i a p s o t
  show "targetRotation topDraw topDraw manySegments = Fin (1800 + 1 / 2 ^ 42)"
    by (rule targetRotation_eq)
qed

text \<open>A spin from a valid idle state sets the flag and captures a winner.\<close>

lemma spinWheel_starts:
  assumes "valid s" and "\<forall>wheel \<in> set (wheels s). length (segments wheel) < 2 ^ 32"
    and "\<not> isSpinning s" and "isDouble r1" and "0 \<le> r1" and "r1 < 1"
  shows "isSpinning (spinWheel r1 r2 s)
    \<and> (\<exists>a w. pending (spinWheel r1 r2 s) = Some a \<and> winner a = Some w)"
proof -
  from assms(1) have ne: "wheels s \<noteq> []" and segs: "\<forall>wheel \<in> set (wheels s). segments wheel \<noteq> []"
    by (simp_all add: valid_def bounds_alt)
  from ne obtain active where a: "activeWheel s = Some active" "active \<in> set (wheels s)"
    using activeWheel_Some [of s] by auto
  with segs assms(2) have "segments active \<noteq> []" "length (segments active) < 2 ^ 32" by blast+
  from winningIndex_bounds [OF this assms(4-6)] a(1) assms(3) show ?thesis
    by (simp add: spinWheel_def Let_def at_index_def)
qed

text \<open>
  C8. While the spinning flag is set, a spin request is a no-op: the state, and with it the
  animation in flight, is unchanged. The flag stays set until the animation completes;
  the callback then clears it and records the winner that the animation carries.
\<close>

theorem spin_rejected_while_spinning:
  assumes "isSpinning s"
  shows "spinWheel r1 r2 s = s
    \<and> (\<forall>a w. pending s = Some a \<and> winner a = Some w \<longrightarrow>
          animationFinished s =
            Inr (s\<lparr>spinValue := toValue a, pending := None, isSpinning := False,
                   selectedSegmentId := Some (segment_id w)\<rparr>))"
  using assms
  by (simp add: spinWheel_def animationFinished_def spinCallback_def Let_def split: option.splits)

theorem spin_rejected_while_spinning_witness:
  "isSpinning oneWheelSpinning
   \<and> spinWheel (1/2) (1/4) oneWheelSpinning = oneWheelSpinning
   \<and> pending oneWheelSpinning =
       Some \<lparr>winner = Some \<lparr>segment_id = ''a1'', label = ''Default''\<rparr>, toValue = Fin 1530\<rparr>
   \<and> animationFinished oneWheelSpinning =
       Inr (oneWheel\<lparr>spinValue := Fin 1530, selectedSegmentId := Some ''a1''\<rparr>)"
proof -
  have sp: "isSpinning oneWheelSpinning"
    by (simp add: oneWheelSpinning_eq)
  have p: "pending oneWheelSpinning =
       Some \<lparr>winner = Some \<lparr>segment_id = ''a1'', label = ''Default''\<rparr>, toValue = Fin 1530\<rparr>"
    by (simp add: oneWheelSpinning_eq)
  from spin_rejected_while_spinning [OF sp, of "1/2" "1/4"] sp p
  show ?thesis
    by (simp add: oneWheelSpinning_eq oneWheel_def initialState_def)
qed

subsection \<open>Where the pointer lands\<close>

text \<open>
  Angle 0 is the top of the canvas, angle 90 its right edge, and the rotation of the view
  adds its angle to the angle of every point of the wheel.
\<close>

lemma polarToCartesian_top: "polarToCartesian cx cy r 0 = (cx, cy - r)"
  by (simp add: polarToCartesian_def Let_def)

lemma polarToCartesian_right: "polarToCartesian cx cy r 90 = (cx + r, cy)"
  by (simp add: polarToCartesian_def Let_def)

lemma rotateView_polarToCartesian:
  "rotateView cx cy theta (polarToCartesian cx cy r phi) = polarToCartesian cx cy r (phi + theta)"
proof -
  define al where "al = ((phi - 90) * pi) / 180"
  define be where "be = (theta * pi) / 180"
  have e: "((phi + theta - 90) * pi) / 180 = al + be"
    unfolding al_def be_def by (simp add: field_simps)
  have p: "polarToCartesian cx cy r phi = (cx + r * cos al, cy + r * sin al)"
    by (simp add: polarToCartesian_def Let_def al_def)
  have q: "polarToCartesian cx cy r (phi + theta) = (cx + r * cos (al + be), cy + r * sin (al + be))"
    by (simp only: polarToCartesian_def Let_def e)
  have "rotateView cx cy theta (cx + r * cos al, cy + r * sin al)
      = (cx + r * cos al * cos be - r * sin al * sin be,
         cy + r * cos al * sin be + r * sin al * cos be)"
    by (simp add: rotateView_def Let_def be_def)
  also have "\<dots> = (cx + r * cos (al + be), cy + r * sin (al + be))"
    by (simp add: cos_add sin_add algebra_simps)
  finally show ?thesis by (simp only: p q)
qed

text \<open>The direction \<open>underPointer theta\<close> is the one that the rotation brings to the top.\<close>

lemma underPointer_range: "0 \<le> underPointer theta \<and> underPointer theta < 360"
proof -
  have 1: "real_of_int \<lfloor>- theta / 360\<rfloor> \<le> - theta / 360" by (rule of_int_floor_le)
  have 2: "- theta / 360 < real_of_int \<lfloor>- theta / 360\<rfloor> + 1" by linarith
  show ?thesis unfolding underPointer_def using 1 2 by linarith
qed

lemma rotateView_underPointer:
  "rotateView cx cy theta (polarToCartesian cx cy r (underPointer theta)) = (cx, cy - r)"
proof -
  define k where "k = \<lfloor>- theta / 360\<rfloor>"
  define ga where "ga = - (pi / 2) - 2 * pi * real_of_int k"
  have u: "underPointer theta + theta = - 360 * real_of_int k"
    by (simp add: underPointer_def k_def)
  have e: "((underPointer theta + theta - 90) * pi) / 180 = ga"
    unfolding u ga_def by (simp add: field_simps)
  have c: "cos ga = 0" and s: "sin ga = - 1"
    unfolding ga_def by (simp_all add: cos_diff sin_diff cos_int_2pin sin_int_2pin)
  have "polarToCartesian cx cy r (underPointer theta + theta) = (cx + r * cos ga, cy + r * sin ga)"
    by (simp only: polarToCartesian_def Let_def e)
  then show ?thesis
    by (simp add: rotateView_polarToCartesian c s)
qed

text \<open>
  A rotation by four turns, \<open>i\<close> wedges and a positive part \<open>off\<close> of a wedge brings
  the wedge \<open>n - 1 - i\<close> under the pointer, the mirror image of wedge \<open>i\<close>; with no such
  part the pointer is not strictly inside wedge \<open>i\<close>.
\<close>

lemma wedgeUnderPointer_mirror:
  assumes "i < n" and "0 < off" and "off < 360 / real n"
  shows "wedgeUnderPointer n (1440 + real i * (360 / real n) + off) = int n - 1 - int i"
proof -
  define a where "a = 360 / real n"
  define t where "t = 1440 + real i * a + off"
  from assms(1) have n: "0 < real n" and i1: "real i + 1 \<le> real n" by simp_all
  then have a: "0 < a" and an: "a * real n = 360" by (simp_all add: a_def)
  have lo: "0 \<le> real i * a" using a by simp
  from i1 a have "(real i + 1) * a \<le> real n * a" by (intro mult_right_mono) simp_all
  with an have hi: "real i * a + a \<le> 360" by (simp add: algebra_simps)
  from assms(2,3) have o: "0 < off" "off < a" by (simp_all add: a_def)
  have "t \<le> 1800" and "1440 < t" unfolding t_def using lo hi o by linarith+
  then have b: "- 5 \<le> - t / 360" "- t / 360 < - 4" by simp_all
  have "\<lfloor>- t / 360\<rfloor> = - 5"
    by (rule floor_unique) (use b in simp_all)
  then have u: "underPointer t = 360 - real i * a - off"
    by (simp add: underPointer_def t_def)
  have "a * (real n - real i - off / a) = 360 - real i * a - off"
    using an a by (simp add: algebra_simps)
  with a have "underPointer t / a = real n - real i - off / a"
    unfolding u by (simp add: field_simps)
  then have "wedgeUnderPointer n t = \<lfloor>real n - real i - off / a\<rfloor>"
    by (simp only: wedgeUnderPointer_def a_def)
  also have "\<dots> = int n - 1 - int i"
    using o a by (intro floor_unique) (simp_all add: field_simps)
  finally show ?thesis by (simp only: t_def a_def)
qed

lemma pointer_on_boundary:
  assumes "i < n"
  shows "\<not> pointerStrictlyInWedge n i (1440 + real i * (360 / real n))"
proof
  define a where "a = 360 / real n"
  define t where "t = 1440 + real i * a"
  assume "pointerStrictlyInWedge n i (1440 + real i * (360 / real n))"
  then have strict: "pointerStrictlyInWedge n i t" by (simp only: t_def a_def)
  from assms have n: "0 < real n" and i1: "real i + 1 \<le> real n" by simp_all
  then have a: "0 < a" and an: "a * real n = 360" by (simp_all add: a_def)
  from i1 a have "(real i + 1) * a \<le> real n * a" by (intro mult_right_mono) simp_all
  with an have hi: "real i * a + a \<le> 360" by (simp add: algebra_simps)
  from strict have lo: "a * real i < underPointer t" and up: "underPointer t < a * real i + a"
    by (simp_all add: pointerStrictlyInWedge_def startAngle_def endAngle_def a_def)
  show False
  proof (cases "i = 0")
    case True
    then have "underPointer t = 0" by (simp add: underPointer_def t_def)
    with lo True show False by simp
  next
    case False
    then have "1 \<le> real i" by simp
    with a have "1 * a \<le> real i * a" by (intro mult_right_mono) simp_all
    then have pos: "a \<le> real i * a" by simp
    have "t \<le> 1800" and "1440 < t" unfolding t_def using a hi pos by linarith+
    then have b: "- 5 \<le> - t / 360" "- t / 360 < - 4" by simp_all
    have "\<lfloor>- t / 360\<rfloor> = - 5"
      by (rule floor_unique) (use b in simp_all)
    then have "underPointer t = 360 - real i * a"
      by (simp add: underPointer_def t_def)
    also have "\<dots> = a * (real n - real i)" using an by (simp add: algebra_simps)
    finally have u: "underPointer t = a * (real n - real i)" .
    from lo up have "a * real i < a * (real n - real i)" and "a * (real n - real i) < a * (real i + 1)"
      unfolding u by (simp_all add: algebra_simps)
    with a have "real i < real n - real i" and "real n - real i < real i + 1" by simp_all
    then have "real (2 * i) < real n" and "real n < real (2 * i + 1)" by simp_all
    then have "2 * i < n" and "n < 2 * i + 1" by (simp_all only: of_nat_less_iff)
    then show False by linarith
  qed
qed

lemma four_segment_values:
  "winningIndex (1/8) fourSegments = 0"
  "targetRotation (1/8) (1/2) fourSegments = Fin 1485"
proof -
  have len: "real (length fourSegments) = 4" and ne: "fourSegments \<noteq> []"
    by (simp_all add: fourSegments_def)
  have "round64 (1/2) = 1/2"
    by (rule round64_dyadic [where m = 1 and k = "- 1"]) simp_all
  then have "round64 (1/8 * 4) = 1/2" by simp
  with len show i: "winningIndex (1/8) fourSegments = 0"
    by (rule winningIndex_eq) simp
  have a: "anglePerSegment fourSegments = 90"
    using len by (rule anglePerSegment_eq) (simp add: round64_numeral)
  have o: "randomOffset (1/2) fourSegments = 45"
    using a by (rule randomOffset_eq) (simp add: round64_numeral)
  show "targetRotation (1/8) (1/2) fourSegments = Fin 1485"
    using ne i a _ _ o by (rule targetRotation_eq [where p = 0 and s = 1440])
      (simp_all add: round64_numeral)
qed

text \<open>
  C4 says that the rotation by the target leaves the pointer strictly inside the winning
  wedge. For a wheel of four segments and the draws 1/8 and 1/2, \<open>spinWheel\<close> picks the
  segment of index 0 and the target 1485 degrees; the rotation brings the direction 315
  under the pointer, which lies strictly inside wedge 3 and not in wedge 0.
\<close>

theorem pointer_misses_winner:
  "pending (spinWheel (1/8) (1/2) fourState) =
     Some \<lparr>winner = Some \<lparr>segment_id = ''s0'', label = ''Default''\<rparr>, toValue = Fin 1485\<rparr>
   \<and> winningIndex (1/8) fourSegments = 0
   \<and> underPointer 1485 = 315
   \<and> wedgeUnderPointer 4 1485 = 3
   \<and> pointerStrictlyInWedge 4 3 1485
   \<and> \<not> pointerInWedge 4 0 1485"
proof -
  have a: "activeWheel fourState = Some \<lparr>wheel_id = ''f'', name = ''Wheel 1'', segments = fourSegments\<rparr>"
    by (simp add: activeWheel_def fourState_def initialState_def)
  note i = four_segment_values(1)
  note t = four_segment_values(2)
  have w: "at_index fourSegments 0 = Some \<lparr>segment_id = ''s0'', label = ''Default''\<rparr>"
    by (simp add: at_index_def fourSegments_def)
  have p: "pending (spinWheel (1/8) (1/2) fourState) =
     Some \<lparr>winner = Some \<lparr>segment_id = ''s0'', label = ''Default''\<rparr>, toValue = Fin 1485\<rparr>"
    by (simp add: spinWheel_def a Let_def i t w) (simp add: fourState_def initialState_def)
  have u: "underPointer 1485 = 315"
    by (simp add: underPointer_def)
  show ?thesis
    by (simp add: p i u wedgeUnderPointer_def pointerInWedge_def pointerStrictlyInWedge_def
        startAngle_def endAngle_def)
qed

text \<open>With the second draw 0 the target is 1440 and the pointer is on the edge of wedge 0.\<close>

lemma pointer_on_boundary_example:
  "targetRotation (1/8) 0 fourSegments = Fin 1440
   \<and> underPointer 1440 = 0
   \<and> \<not> pointerStrictlyInWedge 4 0 1440"
proof -
  have len: "real (length fourSegments) = 4" and ne: "fourSegments \<noteq> []"
    by (simp_all add: fourSegments_def)
  have a: "anglePerSegment fourSegments = 90"
    using len by (rule anglePerSegment_eq) (simp add: round64_numeral)
  have o: "randomOffset 0 fourSegments = 0"
    using a by (rule randomOffset_eq) simp
  have t: "targetRotation (1/8) 0 fourSegments = Fin 1440"
    using ne four_segment_values(1) a _ _ o by (rule targetRotation_eq [where p = 0 and s = 1440])
      (simp_all add: round64_numeral)
  have u: "underPointer 1440 = 0" by (simp add: underPointer_def)
  show ?thesis
    by (simp add: t u pointerStrictlyInWedge_def startAngle_def)
qed

subsection \<open>Loading at startup\<close>

text \<open>
  C9. When the stored snapshot is absent (\<open>getItem\<close> resolves to \<open>null\<close> or to the empty
  string) or corrupt (\<open>JSON.parse\<close> throws), and also when \<open>getItem\<close> rejects or the
  snapshot parses to \<open>null\<close>, the collection is a fresh one: exactly one wheel named
  \<open>Wheel 1\<close> with exactly one segment labelled \<open>Default\<close>, and that wheel is active.
\<close>

theorem load_falls_back:
  assumes "st = Rejected \<or> st = Resolved None
    \<or> (\<exists>raw. st = Resolved (Some raw) \<and> (raw = [] \<or> parse raw = None \<or> parse raw = Some JNull))"
  shows
    "(let starterWheel = \<lparr>wheel_id = newId, name = ''Wheel 1'',
                           segments = [\<lparr>segment_id = newSegId, label = ''Default''\<rparr>]\<rparr>;
          fresh = \<lparr>wheels = [starterWheel], activeWheelId = Some newId,
                   selectedSegmentId = None, isSpinning = False, spinValue = Fin 0,
                   pending = None\<rparr>
      in load parse newId newSegId st = Starter fresh
         \<and> activeWheel fresh = Some starterWheel)"
proof -
  from assms have "load parse newId newSegId st = starter newId newSegId"
    by (auto simp: load_def)
  then show ?thesis
    by (simp add: starter_def createWheel_def createSegment_def initialState_def Let_def
        activeWheel_def)
qed

theorem load_falls_back_witness:
  "(\<lambda>raw. None :: json option) ''{oops'' = None
   \<and> load (\<lambda>raw. None) ''w'' ''g'' (Resolved (Some ''{oops''))
     = Starter \<lparr>wheels = [\<lparr>wheel_id = ''w'', name = ''Wheel 1'',
                          segments = [\<lparr>segment_id = ''g'', label = ''Default''\<rparr>]\<rparr>],
                activeWheelId = Some ''w'', selectedSegmentId = None,
                isSpinning = False, spinValue = Fin 0, pending = None\<rparr>
   \<and> load (\<lambda>raw. None) ''w'' ''g'' (Resolved None)
     = load (\<lambda>raw. None) ''w'' ''g'' (Resolved (Some ''{oops''))"
  using load_falls_back [of "Resolved (Some ''{oops'')" "\<lambda>raw. None" "''w''" "''g''"]
    load_falls_back [of "Resolved None" "\<lambda>raw. None" "''w''" "''g''"]
  by (simp add: Let_def)

end
